theory Spec2Isabelle
  imports Main
begin

section \<open>Strings, character classes and regular expressions\<close>

text \<open>
  A JavaScript string is modelled as a \<^typ>\<open>string\<close>: a list of code units, here the code
  units below 256 (every character the parser's patterns name is ASCII). In that range the
  pattern class \<^verbatim>\<open>\s\<close> and \<^verbatim>\<open>String.prototype.trim\<close> see the same seven characters, and
  the only line terminators, which \<^verbatim>\<open>.\<close> does not match, are LF and CR.
\<close>

definition is_space :: "char \<Rightarrow> bool" where
  "is_space c = (c \<in> set [CHR 0x09, CHR 0x0A, CHR 0x0B, CHR 0x0C, CHR 0x0D, CHR 0x20, CHR 0xA0])"

definition any_char :: "char \<Rightarrow> bool" where
  "any_char c = (c \<noteq> CHR 0x0A \<and> c \<noteq> CHR 0x0D)"

definition is_digit :: "char \<Rightarrow> bool" where
  "is_digit c = (c \<in> set ''0123456789'')"

definition is_word :: "char \<Rightarrow> bool" where
  "is_word c = (c \<in> set ''abcdefghijklmnopqrstuvwxyzABCDEFGHIJKLMNOPQRSTUVWXYZ0123456789_'')"

text \<open>
  Every quantifier in the parser's patterns stands on a single character or character class,
  so a pattern is a sequence of atoms: a class with a least and a greatest (or no greatest)
  number of repetitions. \<open>rmatch\<close> matches a pattern at the start of a string the way the
  JavaScript engine does: each atom is greedy, takes the longest run first and gives
  characters back one at a time when the rest of the pattern fails. The flag says whether the
  pattern ends in \<^verbatim>\<open>$\<close>. The result is the text each atom matched, in order, and the
  rest of the string.
\<close>

datatype atom = Rep "char \<Rightarrow> bool" nat "nat option"

abbreviation Cls :: "(char \<Rightarrow> bool) \<Rightarrow> atom" where
  "Cls p \<equiv> Rep p 1 (Some 1)"

abbreviation Lit :: "char \<Rightarrow> atom" where
  "Lit c \<equiv> Rep (\<lambda>x. x = c) 1 (Some 1)"

abbreviation Plus :: "(char \<Rightarrow> bool) \<Rightarrow> atom" where
  "Plus p \<equiv> Rep p 1 None"

abbreviation Star :: "(char \<Rightarrow> bool) \<Rightarrow> atom" where
  "Star p \<equiv> Rep p 0 None"

abbreviation Opt :: "(char \<Rightarrow> bool) \<Rightarrow> atom" where
  "Opt p \<equiv> Rep p 0 (Some 1)"

fun first_some :: "('a \<Rightarrow> 'b option) \<Rightarrow> 'a list \<Rightarrow> 'b option" where
  "first_some f [] = None"
| "first_some f (x # xs) = (case f x of Some y \<Rightarrow> Some y | None \<Rightarrow> first_some f xs)"

definition counts :: "(char \<Rightarrow> bool) \<Rightarrow> nat \<Rightarrow> nat option \<Rightarrow> string \<Rightarrow> nat list" where
  \<comment> \<open>how many characters a greedy atom may take, the most first\<close>
  "counts p lo hi s =
     rev [lo..<Suc (case hi of None \<Rightarrow> length (takeWhile p s)
                             | Some h \<Rightarrow> min h (length (takeWhile p s)))]"

fun rmatch :: "atom list \<Rightarrow> bool \<Rightarrow> string \<Rightarrow> (string list \<times> string) option" where
  "rmatch [] e s = (if e \<and> s \<noteq> [] then None else Some ([], s))"
| "rmatch (Rep p lo hi # as) e s =
     first_some
       (\<lambda>k. case rmatch as e (drop k s) of
              None \<Rightarrow> None
            | Some (gs, r) \<Rightarrow> Some (take k s # gs, r))
       (counts p lo hi s)"

definition test :: "atom list \<Rightarrow> bool \<Rightarrow> string \<Rightarrow> bool" where
  "test re e s = (rmatch re e s \<noteq> None)"

lemma first_some_Some:
  "first_some f xs = Some y \<Longrightarrow> \<exists>x \<in> set xs. f x = Some y"
  by (induction xs) (auto split: option.splits)

lemma rmatch_split: "rmatch re e s = Some (gs, r) \<Longrightarrow> s = concat gs @ r"
proof (induction re arbitrary: s gs r)
  case Nil
  then show ?case by (simp split: if_splits)
next
  case (Cons a re)
  obtain p lo hi where a: "a = Rep p lo hi" by (cases a)
  from Cons.prems obtain k gs' where
    k: "rmatch re e (drop k s) = Some (gs', r)" and gs: "gs = take k s # gs'"
    unfolding a by (auto dest!: first_some_Some split: option.splits)
  from Cons.IH [OF k] have "drop k s = concat gs' @ r" .
  then have "take k s @ drop k s = take k s @ concat gs' @ r" by simp
  then show ?case by (simp add: gs)
qed

text \<open>
  \<^verbatim>\<open>text.replace(/re/g, callback)\<close>: the matches are found left to right, each search
  starting where the last match ended; a position where the pattern does not match keeps its
  character. After an empty match the engine steps one character forward.
\<close>

function replace_all :: "atom list \<Rightarrow> (string list \<Rightarrow> string) \<Rightarrow> string \<Rightarrow> string" where
  "replace_all re f s =
     (case rmatch re False s of
        Some (gs, r) \<Rightarrow>
          if concat gs = []
          then f gs @ (case s of [] \<Rightarrow> [] | c # cs \<Rightarrow> c # replace_all re f cs)
          else f gs @ replace_all re f r
      | None \<Rightarrow> (case s of [] \<Rightarrow> [] | c # cs \<Rightarrow> c # replace_all re f cs))"
  by pat_completeness auto
termination
  by (relation "measure (\<lambda>(re, f, s). length s)") (auto dest!: rmatch_split)

declare replace_all.simps [simp del]

text \<open>
  The same replacement where the callback reads and extends a list as it goes, as the
  callbacks of \<^verbatim>\<open>escapeHTMLInText\<close> do with \<^verbatim>\<open>protectedElements\<close>.
\<close>

function replace_all_st ::
  "atom list \<Rightarrow> (string list \<Rightarrow> string list \<Rightarrow> string \<times> string list) \<Rightarrow> string list \<Rightarrow> string
    \<Rightarrow> string \<times> string list" where
  "replace_all_st re f st s =
     (case rmatch re False s of
        Some (gs, r) \<Rightarrow>
          (case f gs st of (out, st') \<Rightarrow>
            if concat gs = []
            then (case s of
                    [] \<Rightarrow> (out, st')
                  | c # cs \<Rightarrow> (case replace_all_st re f st' cs of (t, st'') \<Rightarrow> (out @ c # t, st'')))
            else (case replace_all_st re f st' r of (t, st'') \<Rightarrow> (out @ t, st'')))
      | None \<Rightarrow>
          (case s of
             [] \<Rightarrow> ([], st)
           | c # cs \<Rightarrow> (case replace_all_st re f st cs of (t, st') \<Rightarrow> (c # t, st'))))"
  by pat_completeness auto
termination
  by (relation "measure (\<lambda>(re, f, st, s). length s)") (auto dest!: rmatch_split)

declare replace_all_st.simps [simp del]

subsection \<open>String helpers of the JavaScript library\<close>

definition trim :: "string \<Rightarrow> string" where
  "trim s = rev (dropWhile is_space (rev (dropWhile is_space s)))"

fun split_on :: "char \<Rightarrow> string \<Rightarrow> string list" where
  "split_on c [] = [[]]"
| "split_on c (x # xs) =
     (if x = c then [] # split_on c xs
      else (case split_on c xs of [] \<Rightarrow> [[x]] | y # ys \<Rightarrow> (x # y) # ys))"

fun join :: "string \<Rightarrow> string list \<Rightarrow> string" where
  "join sep [] = []"
| "join sep [x] = x"
| "join sep (x # y # ys) = x @ sep @ join sep (y # ys)"

function show_nat :: "nat \<Rightarrow> string" where
  "show_nat n =
     (if n < 10 then [''0123456789'' ! n]
      else show_nat (n div 10) @ [''0123456789'' ! (n mod 10)])"
  by pat_completeness auto
termination
  by (relation "measure id") auto

declare show_nat.simps [simp del]

text \<open>
  \<^verbatim>\<open>s.replace(pattern, replacement)\<close> with a string pattern replaces the first occurrence.
  The replacement is not taken literally: \<^verbatim>\<open>$$\<close> is a dollar sign, \<^verbatim>\<open>$&\<close> the matched
  text, \<^verbatim>\<open>$`\<close> the text before the match and \<^verbatim>\<open>$'\<close> the text after it. A string pattern
  has no groups, so \<^verbatim>\<open>$1\<close> and the like stand for themselves.
\<close>

fun find_sub :: "string \<Rightarrow> string \<Rightarrow> (string \<times> string) option" where
  "find_sub pat [] = (if pat = [] then Some ([], []) else None)"
| "find_sub pat (c # cs) =
     (if take (length pat) (c # cs) = pat then Some ([], drop (length pat) (c # cs))
      else (case find_sub pat cs of
              None \<Rightarrow> None
            | Some (b, a) \<Rightarrow> Some (c # b, a)))"

fun getSubstitution :: "string \<Rightarrow> string \<Rightarrow> string \<Rightarrow> string \<Rightarrow> string" where
  "getSubstitution matched bef aft [] = []"
| "getSubstitution matched bef aft [c] = [c]"
| "getSubstitution matched bef aft (c # d # cs) =
     (if c = CHR ''$'' \<and> d = CHR ''$'' then CHR ''$'' # getSubstitution matched bef aft cs
      else if c = CHR ''$'' \<and> d = CHR ''&'' then matched @ getSubstitution matched bef aft cs
      else if c = CHR ''$'' \<and> d = CHR ''`'' then bef @ getSubstitution matched bef aft cs
      else if c = CHR ''$'' \<and> d = CHR 0x27 then aft @ getSubstitution matched bef aft cs
      else c # getSubstitution matched bef aft (d # cs))"

definition replace_str :: "string \<Rightarrow> string \<Rightarrow> string \<Rightarrow> string" where
  "replace_str pat repl s =
     (case find_sub pat s of
        None \<Rightarrow> s
      | Some (b, a) \<Rightarrow> b @ getSubstitution pat b a repl @ a)"

text \<open>
  \<^verbatim>\<open>escapeHTML\<close> sets the text of a fresh element and reads its \<^verbatim>\<open>innerHTML\<close>. The
  browser's serialisation of a text node, which is not code of the parser, replaces the
  ampersand, the no-break space and the two angle brackets; quotes stay as they are.
\<close>

fun escapeHTML :: "string \<Rightarrow> string" where
  "escapeHTML [] = []"
| "escapeHTML (c # cs) =
     (if c = CHR ''&'' then ''&amp;''
      else if c = CHR 0xA0 then ''&nbsp;''
      else if c = CHR ''<'' then ''&lt;''
      else if c = CHR ''>'' then ''&gt;''
      else [c]) @ escapeHTML cs"

section \<open>The Inline Engine\<close>

definition re_inline_code :: "atom list" where
  \<comment> \<open>\<^verbatim>\<open>/`([^`]+)`/g\<close>\<close>
  "re_inline_code = [Lit CHR ''`'', Plus (\<lambda>c. c \<noteq> CHR ''`''), Lit CHR ''`'']"

definition re_link :: "atom list" where
  \<comment> \<open>\<^verbatim>\<open>/\[([^\]]+)\]\(([^)]+)\)/g\<close>\<close>
  "re_link = [Lit CHR ''['', Plus (\<lambda>c. c \<noteq> CHR '']''), Lit CHR '']'',
              Lit CHR ''('', Plus (\<lambda>c. c \<noteq> CHR '')''), Lit CHR '')'']"

definition re_image :: "atom list" where
  \<comment> \<open>\<^verbatim>\<open>/!\[([^\]]*)\]\(([^)]+)\)/g\<close>\<close>
  "re_image = [Lit CHR ''!'', Lit CHR ''['', Star (\<lambda>c. c \<noteq> CHR '']''), Lit CHR '']'',
               Lit CHR ''('', Plus (\<lambda>c. c \<noteq> CHR '')''), Lit CHR '')'']"

definition re_delim2 :: "char \<Rightarrow> atom list" where
  \<comment> \<open>\<^verbatim>\<open>/\*\*([^*]+)\*\*/g\<close>, \<^verbatim>\<open>/__([^_]+)__/g\<close> and \<^verbatim>\<open>/~~([^~]+)~~/g\<close>\<close>
  "re_delim2 d = [Lit d, Lit d, Plus (\<lambda>c. c \<noteq> d), Lit d, Lit d]"

definition re_delim1 :: "char \<Rightarrow> atom list" where
  \<comment> \<open>\<^verbatim>\<open>/\*([^*]+)\*/g\<close> and \<^verbatim>\<open>/_([^_]+)_/g\<close>\<close>
  "re_delim1 d = [Lit d, Plus (\<lambda>c. c \<noteq> d), Lit d]"

definition processInlineCode :: "string \<Rightarrow> string" where
  "processInlineCode text =
     replace_all re_inline_code (\<lambda>gs. ''<code>'' @ escapeHTML (gs ! 1) @ ''</code>'') text"

definition processLinks :: "string \<Rightarrow> string" where
  \<open>processLinks text =
     replace_all re_link
       (\<lambda>gs. ''<a href="'' @ escapeHTML (gs ! 4) @ ''">'' @ escapeHTML (gs ! 1) @ ''</a>'') text\<close>

definition processImages :: "string \<Rightarrow> string" where
  \<open>processImages text =
     replace_all re_image
       (\<lambda>gs. ''<img src="'' @ escapeHTML (gs ! 5) @ ''" alt="'' @ escapeHTML (gs ! 2) @ ''">'') text\<close>

definition processBoldItalic :: "string \<Rightarrow> string" where
  "processBoldItalic text =
     replace_all (re_delim1 CHR ''_'') (\<lambda>gs. ''<em>'' @ gs ! 1 @ ''</em>'')
       (replace_all (re_delim1 CHR ''*'') (\<lambda>gs. ''<em>'' @ gs ! 1 @ ''</em>'')
         (replace_all (re_delim2 CHR ''_'') (\<lambda>gs. ''<strong>'' @ gs ! 2 @ ''</strong>'')
           (replace_all (re_delim2 CHR ''*'') (\<lambda>gs. ''<strong>'' @ gs ! 2 @ ''</strong>'') text)))"

definition processStrikethrough :: "string \<Rightarrow> string" where
  "processStrikethrough text =
     replace_all (re_delim2 CHR ''~'') (\<lambda>gs. ''<del>'' @ gs ! 2 @ ''</del>'') text"

text \<open>
  The patterns of \<^verbatim>\<open>processInlineHTML\<close> carry the flag \<^verbatim>\<open>i\<close>: a letter of the tag name
  matches itself and its upper-case form.
\<close>

definition to_upper :: "char \<Rightarrow> char" where
  "to_upper c =
     (case map_of (zip ''abcdefghijklmnopqrstuvwxyz'' ''ABCDEFGHIJKLMNOPQRSTUVWXYZ'') c of
        None \<Rightarrow> c
      | Some u \<Rightarrow> u)"

definition CI :: "char \<Rightarrow> atom" where
  "CI c = Cls (\<lambda>x. x = c \<or> x = to_upper c)"

definition re_inline_html :: "string \<Rightarrow> atom list" where
  \<comment> \<open>\<^verbatim>\<open>new RegExp(`<${tag}([^>]*)>([^<]*)</${tag}>`, 'gi')\<close>\<close>
  "re_inline_html tag =
     [Lit CHR ''<''] @ map CI tag @
     [Star (\<lambda>c. c \<noteq> CHR ''>''), Lit CHR ''>'', Star (\<lambda>c. c \<noteq> CHR ''<''),
      Lit CHR ''<'', Lit CHR ''/''] @ map CI tag @ [Lit CHR ''>'']"

definition inline_html_tag :: "string \<Rightarrow> string \<Rightarrow> string" where
  "inline_html_tag tag text =
     replace_all (re_inline_html tag)
       (\<lambda>gs. ''<'' @ tag @ gs ! (1 + length tag) @ ''>'' @ gs ! (3 + length tag) @
              ''</'' @ tag @ ''>'') text"

definition allowedInlineTags :: "string list" where
  "allowedInlineTags = [''kbd'', ''mark'', ''details'', ''summary'']"

definition processInlineHTML :: "string \<Rightarrow> string" where
  "processInlineHTML text = foldl (\<lambda>t tag. inline_html_tag tag t) text allowedInlineTags"

definition processInlineElements :: "string \<Rightarrow> string" where
  "processInlineElements text =
     (if text = [] then []
      else processInlineHTML (processStrikethrough (processBoldItalic
             (processLinks (processImages (processInlineCode text))))))"

section \<open>The HTML Escaper and its protection of spans\<close>

definition placeholder :: "nat \<Rightarrow> string" where
  "placeholder index = ''__PROTECTED_'' @ show_nat index @ ''__''"

definition protect :: "string list \<Rightarrow> string list \<Rightarrow> string \<times> string list" where
  \<comment> \<open>the callback of the three protecting replacements: \<^verbatim>\<open>match\<close> is the whole match\<close>
  "protect gs protectedElements =
     (placeholder (length protectedElements), protectedElements @ [concat gs])"

definition re_tag :: "atom list" where
  \<comment> \<open>\<^verbatim>\<open>/<[^>]+>/g\<close>\<close>
  "re_tag = [Lit CHR ''<'', Plus (\<lambda>c. c \<noteq> CHR ''>''), Lit CHR ''>'']"

definition restore :: "string list \<Rightarrow> string \<Rightarrow> string" where
  \<comment> \<open>\<^verbatim>\<open>protectedElements.forEach((element, index) => ...replace(`__PROTECTED_${index}__`, element))\<close>\<close>
  "restore protectedElements protectedText =
     foldl (\<lambda>t (index, element). replace_str (placeholder index) element t) protectedText
       (zip [0..<length protectedElements] protectedElements)"

definition escapeHTMLInText :: "string \<Rightarrow> string" where
  "escapeHTMLInText text =
     (case replace_all_st re_inline_code protect [] text of (t1, e1) \<Rightarrow>
      case replace_all_st re_link protect e1 t1 of (t2, e2) \<Rightarrow>
      case replace_all_st re_image protect e2 t2 of (t3, e3) \<Rightarrow>
        restore e3 (replace_all re_tag (\<lambda>gs. escapeHTML (concat gs)) t3))"

section \<open>Block processors\<close>

text \<open>
  A processor returns the HTML of its block and the index of the next line. Reading
  \<^verbatim>\<open>lines[startIndex]\<close> past the end gives \<^verbatim>\<open>undefined\<close>, and calling \<^verbatim>\<open>match\<close> on
  it raises a \<^verbatim>\<open>TypeError\<close>.
\<close>

datatype error = TypeError

type_synonym blockResult = "string \<times> nat"

abbreviation NL :: string where
  "NL \<equiv> [CHR 0x0A]"

subsection \<open>Fenced code blocks\<close>

definition re_fence_open :: "atom list" where
  \<comment> \<open>\<^verbatim>\<open>/^```/\<close>\<close>
  "re_fence_open = [Lit CHR ''`'', Lit CHR ''`'', Lit CHR ''`'']"

definition re_fence_lang :: "atom list" where
  \<comment> \<open>\<^verbatim>\<open>/^```(\w+)?/\<close>: the optional group is the longest run of word characters, empty
      where the source reads \<^verbatim>\<open>undefined\<close> (both give the language \<^verbatim>\<open>''\<close>)\<close>
  "re_fence_lang = [Lit CHR ''`'', Lit CHR ''`'', Lit CHR ''`'', Star is_word]"

definition re_fence_close :: "atom list" where
  \<comment> \<open>\<^verbatim>\<open>/^```\s*$/\<close>\<close>
  "re_fence_close = [Lit CHR ''`'', Lit CHR ''`'', Lit CHR ''`'', Star is_space]"

function fenceLoop :: "string list \<Rightarrow> nat \<Rightarrow> string list \<Rightarrow> string list \<times> nat" where
  "fenceLoop lines i codeLines =
     (if i < length lines \<and> \<not> test re_fence_close True (lines ! i)
      then fenceLoop lines (i + 1) (codeLines @ [lines ! i])
      else (codeLines, i))"
  by pat_completeness auto
termination
  by (relation "measure (\<lambda>(lines, i, codeLines). length lines - i)") auto

declare fenceLoop.simps [simp del]

definition fenceLanguage :: "string \<Rightarrow> string" where
  "fenceLanguage startLine =
     (case rmatch re_fence_lang False startLine of None \<Rightarrow> [] | Some (gs, r) \<Rightarrow> gs ! 3)"

definition fenceHtml :: "string \<Rightarrow> string list \<Rightarrow> string" where
  \<open>fenceHtml language codeLines =
     ''<pre><code'' @
     (if language \<noteq> [] then '' class="language-'' @ language @ ''"'' else []) @
     ''>'' @ escapeHTML (join NL codeLines) @ ''</code></pre>''\<close>

definition processFencedCodeBlock :: "string list \<Rightarrow> nat \<Rightarrow> error + blockResult" where
  "processFencedCodeBlock lines startIndex =
     (if length lines \<le> startIndex then Inl TypeError
      else (case fenceLoop lines (startIndex + 1) [] of
              (codeLines, i) \<Rightarrow>
                Inr (fenceHtml (fenceLanguage (lines ! startIndex)) codeLines, i + 1)))"

subsection \<open>Tables\<close>

definition isTableRow :: "string \<Rightarrow> bool" where
  "isTableRow line = (CHR ''|'' \<in> set line \<and> 0 < length (trim line))"

definition is_sep_char :: "char \<Rightarrow> bool" where
  "is_sep_char c = (is_space c \<or> c = CHR ''-'' \<or> c = CHR ''|'' \<or> c = CHR '':'')"

definition re_table_sep :: "atom list" where
  \<comment> \<open>\<^verbatim>\<open>/^\s*\|?[\s\-\|:]+\|?\s*$/\<close>\<close>
  "re_table_sep = [Star is_space, Opt (\<lambda>c. c = CHR ''|''), Plus is_sep_char,
                   Opt (\<lambda>c. c = CHR ''|''), Star is_space]"

definition isTableSeparator :: "string \<Rightarrow> bool" where
  "isTableSeparator line = test re_table_sep True line"

definition parseTableRow :: "string \<Rightarrow> string list" where
  "parseTableRow line = filter (\<lambda>cell. cell \<noteq> []) (map trim (split_on CHR ''|'' line))"

function tableLoop :: "string list \<Rightarrow> nat \<Rightarrow> string list \<Rightarrow> string list \<times> nat" where
  "tableLoop lines i tableLines =
     (if i < length lines \<and> isTableRow (lines ! i)
      then tableLoop lines (i + 1) (tableLines @ [lines ! i])
      else (tableLines, i))"
  by pat_completeness auto
termination
  by (relation "measure (\<lambda>(lines, i, tableLines). length lines - i)") auto

declare tableLoop.simps [simp del]

definition tableHtml :: "string list \<Rightarrow> string" where
  "tableHtml tableLines =
     ''<table>'' @ NL @ ''<thead>'' @ NL @ ''<tr>'' @ NL @
     concat (map (\<lambda>cell. ''<th>'' @ processInlineElements cell @ ''</th>'' @ NL)
               (parseTableRow (tableLines ! 0))) @
     ''</tr>'' @ NL @ ''</thead>'' @ NL @ ''<tbody>'' @ NL @
     concat (map (\<lambda>row. ''<tr>'' @ NL @
                         concat (map (\<lambda>cell. ''<td>'' @ processInlineElements cell @ ''</td>'' @ NL) row) @
                         ''</tr>'' @ NL)
               (map parseTableRow (drop 2 tableLines))) @
     ''</tbody>'' @ NL @ ''</table>''"

definition processTable :: "string list \<Rightarrow> nat \<Rightarrow> blockResult option" where
  "processTable lines startIndex =
     (case tableLoop lines startIndex [] of
        (tableLines, i) \<Rightarrow>
          if length tableLines < 2 then None else Some (tableHtml tableLines, i))"

subsection \<open>Lists\<close>

definition is_marker :: "char \<Rightarrow> bool" where
  "is_marker c = (c = CHR ''-'' \<or> c = CHR ''*'' \<or> c = CHR ''+'')"

definition re_list_gate_ul :: "atom list" where
  \<comment> \<open>\<^verbatim>\<open>/^\s*[-*+]\s/\<close>\<close>
  "re_list_gate_ul = [Star is_space, Cls is_marker, Cls is_space]"

definition re_list_gate_ol :: "atom list" where
  \<comment> \<open>\<^verbatim>\<open>/^\s*\d+\.\s/\<close>\<close>
  "re_list_gate_ol = [Star is_space, Plus is_digit, Lit CHR ''.'', Cls is_space]"

definition re_unordered :: "atom list" where
  \<comment> \<open>\<^verbatim>\<open>/^(\s*)([-*+])\s+(.+)$/\<close>\<close>
  "re_unordered = [Star is_space, Cls is_marker, Plus is_space, Plus any_char]"

definition re_ordered :: "atom list" where
  \<comment> \<open>\<^verbatim>\<open>/^(\s*)(\d+)\.\s+(.+)$/\<close>\<close>
  "re_ordered = [Star is_space, Plus is_digit, Lit CHR ''.'', Plus is_space, Plus any_char]"

definition re_task :: "atom list" where
  \<comment> \<open>\<^verbatim>\<open>/^(\s*)([-*+])\s+\[([ x])\]\s+(.+)$/\<close>\<close>
  "re_task = [Star is_space, Cls is_marker, Plus is_space, Lit CHR ''['',
              Cls (\<lambda>c. c = CHR '' '' \<or> c = CHR ''x''), Lit CHR '']'', Plus is_space,
              Plus any_char]"

datatype itemType = Task | Unordered | Ordered

record listItem =
  itype :: itemType
  indent :: nat
  content :: string
  checked :: "bool option"

text \<open>
  One pass of the loop body of \<^verbatim>\<open>processList\<close>: the three patterns are tried on the line
  and the first of task, unordered, ordered that matched gives the item and the tag that
  \<^verbatim>\<open>listType\<close> takes if it is still \<^verbatim>\<open>null\<close>.
\<close>

definition listItemOf :: "string \<Rightarrow> (listItem \<times> string) option" where
  "listItemOf line =
     (case rmatch re_task True line of
        Some (gs, r) \<Rightarrow>
          Some (\<lparr>itype = Task, indent = length (gs ! 0),
                  content = processInlineElements (gs ! 7),
                  checked = Some (gs ! 4 = ''x'')\<rparr>, ''ul'')
      | None \<Rightarrow>
          (case rmatch re_unordered True line of
             Some (gs, r) \<Rightarrow>
               Some (\<lparr>itype = Unordered, indent = length (gs ! 0),
                       content = processInlineElements (gs ! 3), checked = None\<rparr>, ''ul'')
           | None \<Rightarrow>
               (case rmatch re_ordered True line of
                  Some (gs, r) \<Rightarrow>
                    Some (\<lparr>itype = Ordered, indent = length (gs ! 0),
                            content = processInlineElements (gs ! 4), checked = None\<rparr>, ''ol'')
                | None \<Rightarrow> None)))"

function listLoop ::
  "string list \<Rightarrow> nat \<Rightarrow> listItem list \<Rightarrow> string option
    \<Rightarrow> listItem list \<times> string option \<times> nat" where
  "listLoop lines i listItems listType =
     (if i < length lines
      then (case listItemOf (lines ! i) of
              Some (item, tag) \<Rightarrow>
                listLoop lines (i + 1) (listItems @ [item])
                  (case listType of None \<Rightarrow> Some tag | Some t \<Rightarrow> Some t)
            | None \<Rightarrow> (listItems, listType, i))
      else (listItems, listType, i))"
  by pat_completeness auto
termination
  by (relation "measure (\<lambda>(lines, i, listItems, listType). length lines - i)") auto

declare listLoop.simps [simp del]

definition itemHtml :: "listItem \<Rightarrow> string" where
  \<open>itemHtml item =
     (if itype item = Task
      then ''<li class="task-list-item"><input type="checkbox"'' @
           (if checked item = Some True then '' checked'' else []) @
           '' disabled> '' @ content item @ ''</li>'' @ NL
      else ''<li>'' @ content item @ ''</li>'' @ NL)\<close>

definition listTag :: "string option \<Rightarrow> string" where
  \<comment> \<open>\<^verbatim>\<open>`${listType}`\<close>: a \<^verbatim>\<open>null\<close> prints as the word\<close>
  "listTag listType = (case listType of None \<Rightarrow> ''null'' | Some t \<Rightarrow> t)"

definition processList :: "string list \<Rightarrow> nat \<Rightarrow> blockResult" where
  "processList lines startIndex =
     (case listLoop lines startIndex [] None of
        (listItems, listType, i) \<Rightarrow>
          (''<'' @ listTag listType @ ''>'' @ NL @ concat (map itemHtml listItems) @
           ''</'' @ listTag listType @ ''>'', i))"

subsection \<open>Blockquotes\<close>

definition re_quote :: "atom list" where
  \<comment> \<open>\<^verbatim>\<open>/^\s*>\s/\<close>\<close>
  "re_quote = [Star is_space, Lit CHR ''>'', Cls is_space]"

definition re_quote_marker :: "atom list" where
  \<comment> \<open>\<^verbatim>\<open>/^\s*>\s?/\<close>\<close>
  "re_quote_marker = [Star is_space, Lit CHR ''>'', Opt is_space]"

definition stripQuoteMarker :: "string \<Rightarrow> string" where
  \<comment> \<open>\<^verbatim>\<open>lines[i].replace(/^\s*>\s?/, '')\<close>\<close>
  "stripQuoteMarker line =
     (case rmatch re_quote_marker False line of None \<Rightarrow> line | Some (gs, r) \<Rightarrow> r)"

function quoteLoop :: "string list \<Rightarrow> nat \<Rightarrow> string list \<Rightarrow> string list \<times> nat" where
  "quoteLoop lines i quoteLines =
     (if i < length lines \<and> test re_quote False (lines ! i)
      then quoteLoop lines (i + 1) (quoteLines @ [stripQuoteMarker (lines ! i)])
      else (quoteLines, i))"
  by pat_completeness auto
termination
  by (relation "measure (\<lambda>(lines, i, quoteLines). length lines - i)") auto

declare quoteLoop.simps [simp del]

definition processBlockquote :: "string list \<Rightarrow> nat \<Rightarrow> blockResult" where
  "processBlockquote lines startIndex =
     (case quoteLoop lines startIndex [] of
        (quoteLines, i) \<Rightarrow>
          (''<blockquote>'' @ processInlineElements (join NL quoteLines) @ ''</blockquote>'', i))"

subsection \<open>The dispatch on one line\<close>

definition re_header :: "atom list" where
  \<comment> \<open>\<^verbatim>\<open>/^(#{1,6})\s+(.+)$/\<close>\<close>
  "re_header = [Rep (\<lambda>c. c = CHR ''#'') 1 (Some 6), Plus is_space, Plus any_char]"

definition is_rule_char :: "char \<Rightarrow> bool" where
  "is_rule_char c = (c = CHR ''-'' \<or> c = CHR ''*'' \<or> c = CHR ''_'')"

definition re_rule :: "atom list" where
  \<comment> \<open>\<^verbatim>\<open>/^\s*[-*_]{3,}\s*$/\<close>\<close>
  "re_rule = [Star is_space, Rep is_rule_char 3 None, Star is_space]"

definition headerHtml :: "string list \<Rightarrow> string" where
  "headerHtml headerMatch =
     ''<h'' @ show_nat (length (headerMatch ! 0)) @ ''>'' @
     processInlineElements (headerMatch ! 2) @
     ''</h'' @ show_nat (length (headerMatch ! 0)) @ ''>''"

definition processBlockElement :: "string list \<Rightarrow> nat \<Rightarrow> error + blockResult option" where
  "processBlockElement lines startIndex =
     (if length lines \<le> startIndex then Inl TypeError
      else (case rmatch re_header True (lines ! startIndex) of
              Some (headerMatch, r) \<Rightarrow> Inr (Some (headerHtml headerMatch, startIndex + 1))
            | None \<Rightarrow>
                if test re_fence_open False (lines ! startIndex)
                then map_sum id Some (processFencedCodeBlock lines startIndex)
                else if isTableRow (lines ! startIndex) \<and> startIndex + 1 < length lines \<and>
                        isTableSeparator (lines ! (startIndex + 1))
                then Inr (processTable lines startIndex)
                else if test re_list_gate_ul False (lines ! startIndex) \<or>
                        test re_list_gate_ol False (lines ! startIndex)
                then Inr (Some (processList lines startIndex))
                else if test re_quote False (lines ! startIndex)
                then Inr (Some (processBlockquote lines startIndex))
                else if test re_rule True (lines ! startIndex)
                then Inr (Some (''<hr>'', startIndex + 1))
                else Inr None))"

subsection \<open>Paragraphs\<close>

function paragraphLoop ::
  "string list \<Rightarrow> nat \<Rightarrow> string list \<Rightarrow> error + string list \<times> nat" where
  "paragraphLoop lines i paragraphLines =
     (if i < length lines
      then (if trim (lines ! i) = [] then Inr (paragraphLines, i)
            else (case processBlockElement lines i of
                    Inl e \<Rightarrow> Inl e
                  | Inr (Some b) \<Rightarrow> Inr (paragraphLines, i)
                  | Inr None \<Rightarrow> paragraphLoop lines (i + 1) (paragraphLines @ [lines ! i])))
      else Inr (paragraphLines, i))"
  by pat_completeness auto
termination
  by (relation "measure (\<lambda>(lines, i, paragraphLines). length lines - i)") auto

declare paragraphLoop.simps [simp del]

definition processParagraph :: "string list \<Rightarrow> nat \<Rightarrow> error + blockResult" where
  "processParagraph lines startIndex =
     (case paragraphLoop lines startIndex [] of
        Inl e \<Rightarrow> Inl e
      | Inr (paragraphLines, i) \<Rightarrow>
          if paragraphLines = [] then Inr ([], i + 1)
          else Inr (''<p>'' @
                    processInlineElements (escapeHTMLInText (join '' '' paragraphLines)) @
                    ''</p>'', i))"

section \<open>The Block Dispatcher and \<open>parse\<close>\<close>

text \<open>
  The loop of \<^verbatim>\<open>processLines\<close> runs while \<^verbatim>\<open>i < lines.length\<close> and sets \<^verbatim>\<open>i\<close> to
  whatever index a processor returns, so it is a partial function: \<open>None\<close> is a loop that
  never ends, \<open>Some (Inl e)\<close> a raised error and \<open>Some (Inr html)\<close> the returned string.
\<close>

partial_function (option) dispatchLoop ::
  "string list \<Rightarrow> nat \<Rightarrow> string list \<Rightarrow> (error + string) option" where
  "dispatchLoop lines i result =
     (if i < length lines
      then (if trim (lines ! i) = [] \<and> result = [] then dispatchLoop lines (i + 1) result
            else (case processBlockElement lines i of
                    Inl e \<Rightarrow> Some (Inl e)
                  | Inr (Some (html, nextIndex)) \<Rightarrow> dispatchLoop lines nextIndex (result @ [html])
                  | Inr None \<Rightarrow>
                      (case processParagraph lines i of
                         Inl e \<Rightarrow> Some (Inl e)
                       | Inr (html, nextIndex) \<Rightarrow> dispatchLoop lines nextIndex (result @ [html]))))
      else Some (Inr (join NL result)))"

declare dispatchLoop.simps [code]

definition processLines :: "string list \<Rightarrow> (error + string) option" where
  "processLines lines = dispatchLoop lines 0 []"

definition normalizeLineEndings :: "string \<Rightarrow> string" where
  \<comment> \<open>\<^verbatim>\<open>markdown.replace(/\r\n/g, '\n').replace(/\r/g, '\n')\<close>\<close>
  "normalizeLineEndings markdown =
     replace_all [Lit CHR 0x0D] (\<lambda>gs. NL)
       (replace_all [Lit CHR 0x0D, Lit CHR 0x0A] (\<lambda>gs. NL) markdown)"

text \<open>
  \<^verbatim>\<open>parse\<close> takes a string (the model has no other input). The sanitizer, the external
  library or the fallback of \<^verbatim>\<open>sanitizeHTML\<close>, is a parameter; it runs when the option
  \<^verbatim>\<open>sanitizeHTML\<close> is set.
\<close>

record options =
  sanitizeHTML :: bool

definition parse :: "options \<Rightarrow> (string \<Rightarrow> string) \<Rightarrow> string \<Rightarrow> (error + string) option" where
  "parse opts sanitizer markdown =
     (if markdown = [] then Some (Inr [])
      else (case processLines (split_on CHR 0x0A (normalizeLineEndings markdown)) of
              None \<Rightarrow> None
            | Some (Inl e) \<Rightarrow> Some (Inl e)
            | Some (Inr html) \<Rightarrow>
                Some (Inr (if sanitizeHTML opts then sanitizer html else html))))"

section \<open>What a pattern matches\<close>

text \<open>
  A match splits the string into one piece per atom and a rest; each piece consists of
  characters of the atom's class and has a length within the atom's bounds. The search finds a
  match whenever such a split exists, and it finds the greedy one first.
\<close>
fun atom_ok :: "atom \<Rightarrow> string \<Rightarrow> bool" where
  "atom_ok (Rep p lo hi) g =
     (list_all p g \<and> lo \<le> length g \<and> (case hi of None \<Rightarrow> True | Some h \<Rightarrow> length g \<le> h))"

lemma counts_iff:
  "k \<in> set (counts p lo hi s) \<longleftrightarrow>
     lo \<le> k \<and> k \<le> length (takeWhile p s) \<and> (case hi of None \<Rightarrow> True | Some h \<Rightarrow> k \<le> h)"
  by (auto simp: counts_def split: option.splits)

lemma first_some_None: "first_some f xs = None \<longleftrightarrow> (\<forall>x \<in> set xs. f x = None)"
  by (induction xs) (auto split: option.splits)

lemma first_some_hd:
  "f x = Some y \<Longrightarrow> first_some f (x # xs) = Some y"
  by simp

lemma takeWhile_length_ge:
  "list_all p (take k s) \<Longrightarrow> k \<le> length s \<Longrightarrow> k \<le> length (takeWhile p s)"
proof (induction s arbitrary: k)
  case Nil then show ?case by simp
next
  case (Cons a s)
  then show ?case by (cases k) auto
qed

lemma rmatch_sound:
  "rmatch re e s = Some (gs, r) \<Longrightarrow> list_all2 atom_ok re gs \<and> (e \<longrightarrow> r = [])"
proof (induction re arbitrary: s gs r)
  case Nil
  then show ?case by (simp split: if_splits)
next
  case (Cons a re)
  obtain p lo hi where a: "a = Rep p lo hi" by (cases a)
  from Cons.prems obtain k gs' where
    kin: "k \<in> set (counts p lo hi s)"
    and k: "rmatch re e (drop k s) = Some (gs', r)" and gs: "gs = take k s # gs'"
    unfolding a by (auto dest!: first_some_Some split: option.splits)
  have kle: "k \<le> length (takeWhile p s)" using kin by (simp add: counts_iff)
  then have "take k s = take k (takeWhile p s)"
    by (metis min.absorb2 takeWhile_eq_take take_take min.commute)
  then have allp: "list_all p (take k s)"
    by (metis in_set_takeD list_all_iff set_takeWhileD)
  have len: "length (take k s) = k" using kle length_takeWhile_le [of p s] by simp
  from kin have "lo \<le> k" and "case hi of None \<Rightarrow> True | Some h \<Rightarrow> k \<le> h"
    by (simp_all add: counts_iff)
  with allp len Cons.IH [OF k] show ?case by (auto simp: a gs split: option.splits)
qed

lemma rmatch_complete:
  "list_all2 atom_ok re gs \<Longrightarrow> (e \<longrightarrow> r = []) \<Longrightarrow> rmatch re e (concat gs @ r) \<noteq> None"
proof (induction re arbitrary: gs)
  case Nil
  then show ?case by simp
next
  case (Cons a re)
  obtain p lo hi where a: "a = Rep p lo hi" by (cases a)
  from Cons.prems(1) obtain g gs' where gs: "gs = g # gs'" and g: "atom_ok a g"
    and rest: "list_all2 atom_ok re gs'"
    by (cases gs) auto
  let ?s = "concat gs @ r"
  let ?k = "length g"
  have tk: "take ?k ?s = g" and dk: "drop ?k ?s = concat gs' @ r" by (simp_all add: gs)
  from g have "list_all p (take ?k ?s)" unfolding tk by (simp add: a)
  then have "?k \<le> length (takeWhile p ?s)"
    by (rule takeWhile_length_ge) (simp add: gs)
  with g have kin: "?k \<in> set (counts p lo hi ?s)"
    by (simp add: a counts_iff)
  from Cons.IH [OF rest Cons.prems(2)] obtain x where "rmatch re e (drop ?k ?s) = Some x"
    unfolding dk by auto
  then have "(case rmatch re e (drop ?k ?s) of None \<Rightarrow> None
            | Some (gs, r) \<Rightarrow> Some (take ?k ?s # gs, r)) \<noteq> None"
    by (cases x) simp
  with kin have "\<exists>k \<in> set (counts p lo hi ?s).
      (case rmatch re e (drop k ?s) of None \<Rightarrow> None
            | Some (gs, r) \<Rightarrow> Some (take k ?s # gs, r)) \<noteq> None"
    by (intro bexI [where x = "?k"])
  then show ?case
    unfolding a rmatch.simps first_some_None by simp
qed

lemma rmatch_iff:
  "rmatch re e s \<noteq> None \<longleftrightarrow>
     (\<exists>gs r. s = concat gs @ r \<and> list_all2 atom_ok re gs \<and> (e \<longrightarrow> r = []))"
proof
  assume "rmatch re e s \<noteq> None"
  then obtain gs r where m: "rmatch re e s = Some (gs, r)" by auto
  from rmatch_split [OF m] rmatch_sound [OF m] show "\<exists>gs r. s = concat gs @ r \<and> list_all2 atom_ok re gs \<and> (e \<longrightarrow> r = [])"
    by blast
next
  assume "\<exists>gs r. s = concat gs @ r \<and> list_all2 atom_ok re gs \<and> (e \<longrightarrow> r = [])"
  then show "rmatch re e s \<noteq> None" using rmatch_complete by blast
qed

lemma rmatch_greedy:
  assumes "list_all p g" and "t = [] \<or> \<not> p (hd t)" and "lo \<le> length g"
    and "case hi of None \<Rightarrow> True | Some h \<Rightarrow> length g \<le> h"
    and "rmatch as e t = Some (gs, r)"
  shows "rmatch (Rep p lo hi # as) e (g @ t) = Some (g # gs, r)"
proof -
  have tw: "takeWhile p (g @ t) = g"
    using assms(1,2) by (cases t) (auto simp: list_all_iff takeWhile_append2 intro: takeWhile_eq_all_conv[THEN iffD2])
  have "counts p lo hi (g @ t) = length g # rev [lo..<length g]"
    using assms(3,4) by (simp add: counts_def tw split: option.splits)
  then show ?thesis
    using assms(5) by simp
qed

lemma rmatch_first:
  assumes "rmatch (Rep p lo hi # as) e s = Some x" and "0 < lo"
  shows "s \<noteq> [] \<and> p (hd s)"
proof -
  obtain gs r where x: "x = (gs, r)" by (cases x)
  from rmatch_sound [OF assms(1) [unfolded x]] rmatch_split [OF assms(1) [unfolded x]]
  obtain g gs' where "gs = g # gs'" "list_all p g" "lo \<le> length g" "s = g @ concat gs' @ r"
    by (cases gs) auto
  with assms(2) show ?thesis by (cases g) auto
qed

lemma rmatch_first_None:
  "0 < lo \<Longrightarrow> s = [] \<or> \<not> p (hd s) \<Longrightarrow> rmatch (Rep p lo hi # as) e s = None"
  using rmatch_first [of p lo hi as e s] by (cases "rmatch (Rep p lo hi # as) e s") auto

declare rmatch.simps(2) [simp del]

section \<open>Progress of the Block Dispatcher\<close>

text \<open>
  The gate of the List processor, \<^verbatim>\<open>/^\s*[-*+]\s/\<close>, lets through a line that none of the
  three item patterns matches: a marker followed by one blank and nothing else. There
  \<^verbatim>\<open>processList\<close> returns with no item and with the index it was given.
\<close>

lemma list_gate_without_item:
  "processBlockElement [''- ''] 0 = Inr (Some (''<null>'' @ NL @ ''</null>'', 0))"
  by code_simp

lemma dispatchLoop_stuck:
  assumes "dispatchLoop lines i r = Some y"
  shows "\<not> (lines = [''- ''] \<and> i = 0)"
proof (rule dispatchLoop.raw_induct
    [where P = "\<lambda>lines i r y. \<not> (lines = [''- ''] \<and> i = 0)", OF _ assms])
  fix f :: "string list \<Rightarrow> nat \<Rightarrow> string list \<Rightarrow> (error + string) option"
  fix lines i r y
  assume IH: "\<And>lines i r y. f lines i r = Some y \<Longrightarrow> \<not> (lines = [''- ''] \<and> i = 0)"
  assume step:
    "(if i < length lines
      then if trim (lines ! i) = [] \<and> r = []
           then f lines (i + 1) r
           else case processBlockElement lines i of
                  Inl e \<Rightarrow> Some (Inl e)
                | Inr None \<Rightarrow>
                    (case processParagraph lines i of
                       Inl e \<Rightarrow> Some (Inl e)
                     | Inr (html, nextIndex) \<Rightarrow> f lines nextIndex (r @ [html]))
                | Inr (Some (html, nextIndex)) \<Rightarrow> f lines nextIndex (r @ [html])
      else Some (Inr (join NL r))) = Some y"
  show "\<not> (lines = [''- ''] \<and> i = 0)"
  proof
    assume here: "lines = [''- ''] \<and> i = 0"
    have "trim ''- '' \<noteq> []" by code_simp
    with step here list_gate_without_item
    have "f [''- ''] 0 (r @ [''<null>'' @ NL @ ''</null>'']) = Some y"
      by simp
    from IH [OF this] show False by simp
  qed
qed

lemma dispatchLoop_never_returns: "dispatchLoop [''- ''] 0 result = None"
  using dispatchLoop_stuck [of "[''- '']" 0 result]
  by (cases "dispatchLoop [''- ''] 0 result") auto

text \<open>
  Claim C1 says that \<^verbatim>\<open>parse\<close> terminates on every finite input and that every processor
  returns an index greater than the one it was called with. On the one-line document
  \<^verbatim>\<open>"- "\<close> the List processor returns the index it was called with, the dispatcher's index
  stays at 0, and \<^verbatim>\<open>parse\<close> never returns.
\<close>

theorem C1_parse_diverges_on_bare_marker:
  "snd (processList [''- ''] 0) = 0 \<and> parse opts sanitizer ''- '' = None"
proof
  show "snd (processList [''- ''] 0) = 0" by code_simp
  have "split_on CHR 0x0A (normalizeLineEndings ''- '') = [''- '']" by code_simp
  then show "parse opts sanitizer ''- '' = None"
    by (simp add: parse_def processLines_def dispatchLoop_never_returns)
qed

section \<open>Lists\<close>

lemma listItemOf_tag:
  "listItemOf l = Some (item, tag) \<Longrightarrow> tag = (if itype item = Ordered then ''ol'' else ''ul'')"
  by (auto simp: listItemOf_def split: option.splits)

lemma listLoop_keeps_tag:
  "listLoop lines i acc lt = (items, lt', j) \<Longrightarrow> lt = Some t \<Longrightarrow> lt' = Some t"
proof (induction lines i acc lt rule: listLoop.induct)
  case (1 lines i listItems listType)
  show ?case
  proof (cases "i < length lines \<and> listItemOf (lines ! i) \<noteq> None")
    case False
    with "1.prems" show ?thesis by (subst (asm) listLoop.simps) (auto split: option.splits)
  next
    case True
    then obtain item tag where s: "listItemOf (lines ! i) = Some (item, tag)" by auto
    from "1.prems"(1) True s
    have "listLoop lines (i + 1) (listItems @ [item]) (Some t) = (items, lt', j)"
      by (subst (asm) listLoop.simps) (simp add: "1.prems"(2))
    with "1.IH" [of "(item, tag)" item tag] True s "1.prems"(2) show ?thesis by simp
  qed
qed

lemma listLoop_run:
  "\<exists>more lt'. listLoop lines i acc lt = (acc @ more, lt', i + length more)
     \<and> (\<forall>k < length more. \<exists>t. listItemOf (lines ! (i + k)) = Some (more ! k, t))
     \<and> (i + length more < length lines \<longrightarrow> listItemOf (lines ! (i + length more)) = None)"
proof (induction lines i acc lt rule: listLoop.induct)
  case (1 lines i listItems listType)
  show ?case
  proof (cases "i < length lines")
    case False
    then have "listLoop lines i listItems listType = (listItems @ [], listType, i + length ([] :: listItem list))"
      by (subst listLoop.simps) simp
    with False show ?thesis by (intro exI [of _ "[]"] exI [of _ listType]) simp
  next
    case True
    show ?thesis
    proof (cases "listItemOf (lines ! i)")
      case None
      with True have "listLoop lines i listItems listType = (listItems @ [], listType, i + length ([] :: listItem list))"
        by (subst listLoop.simps) simp
      with None show ?thesis by (intro exI [of _ "[]"] exI [of _ listType]) simp
    next
      case (Some a)
      obtain item tag where a: "a = (item, tag)" by (cases a)
      have "\<exists>more lt'. listLoop lines (i + 1) (listItems @ [item]) (case listType of None \<Rightarrow> Some tag | Some t \<Rightarrow> Some t)
              = ((listItems @ [item]) @ more, lt', i + 1 + length more)
           \<and> (\<forall>k < length more. \<exists>t. listItemOf (lines ! (i + 1 + k)) = Some (more ! k, t))
           \<and> (i + 1 + length more < length lines \<longrightarrow> listItemOf (lines ! (i + 1 + length more)) = None)"
        by (rule 1 [OF True Some]) (simp add: a)
      then obtain more lt' where
        m: "listLoop lines (i + 1) (listItems @ [item]) (case listType of None \<Rightarrow> Some tag | Some t \<Rightarrow> Some t)
            = ((listItems @ [item]) @ more, lt', i + 1 + length more)"
        and a1: "\<forall>k < length more. \<exists>t. listItemOf (lines ! (i + 1 + k)) = Some (more ! k, t)"
        and a2: "i + 1 + length more < length lines \<longrightarrow> listItemOf (lines ! (i + 1 + length more)) = None"
        by (elim exE conjE)
      have "listLoop lines i listItems listType = (listItems @ (item # more), lt', i + length (item # more))"
        using True Some a m by (subst listLoop.simps) simp
      moreover have "\<forall>k < length (item # more). \<exists>t. listItemOf (lines ! (i + k)) = Some ((item # more) ! k, t)"
      proof (intro allI impI)
        fix k assume "k < length (item # more)"
        then show "\<exists>t. listItemOf (lines ! (i + k)) = Some ((item # more) ! k, t)"
          using a1 Some a by (cases k) auto
      qed
      moreover have "i + length (item # more) < length lines \<longrightarrow> listItemOf (lines ! (i + length (item # more))) = None"
        using a2 by simp
      ultimately show ?thesis
        by (intro exI [of _ "item # more"] exI [of _ lt'] conjI)
    qed
  qed
qed

text \<open>
  Claim C7: the tag of a list is fixed by the first item of the run, \<^verbatim>\<open>ul\<close> for an
  unordered or a task item and \<^verbatim>\<open>ol\<close> for an ordered one, and it never changes
  afterwards, whatever markers the later lines of the run use. Here the line at \<open>i\<close> is the
  first item; the list carries its tag at both ends and holds that item and the items of all
  the lines that follow up to the first line that is no item.
\<close>

theorem C7_list_tag_fixed_by_first_item:
  assumes "i < length lines" and "listItemOf (lines ! i) = Some (item, tag)"
  shows "tag = (if itype item = Ordered then ''ol'' else ''ul'') \<and>
         (\<exists>items. processList lines i =
             (''<'' @ tag @ ''>'' @ NL @ concat (map itemHtml (item # items)) @ ''</'' @ tag @ ''>'',
              i + 1 + length items)
           \<and> (\<forall>k < length items. \<exists>t. listItemOf (lines ! (i + 1 + k)) = Some (items ! k, t))
           \<and> (i + 1 + length items < length lines \<longrightarrow>
                listItemOf (lines ! (i + 1 + length items)) = None))"
proof
  show "tag = (if itype item = Ordered then ''ol'' else ''ul'')"
    using assms(2) by (rule listItemOf_tag)
  from listLoop_run [of lines "i + 1" "[item]" "Some tag"] obtain more lt' where
    m: "listLoop lines (i + 1) [item] (Some tag) = ([item] @ more, lt', i + 1 + length more)"
    and a1: "\<forall>k < length more. \<exists>t. listItemOf (lines ! (i + 1 + k)) = Some (more ! k, t)"
    and a2: "i + 1 + length more < length lines \<longrightarrow> listItemOf (lines ! (i + 1 + length more)) = None"
    by (elim exE conjE)
  from listLoop_keeps_tag [OF m refl] have lt': "lt' = Some tag" .
  have "listLoop lines i [] None = (item # more, Some tag, i + 1 + length more)"
    using assms m lt' by (subst listLoop.simps) simp
  then have "processList lines i =
             (''<'' @ tag @ ''>'' @ NL @ concat (map itemHtml (item # more)) @ ''</'' @ tag @ ''>'',
              i + 1 + length more)"
    by (simp add: processList_def listTag_def)
  with a1 a2 show "\<exists>items. processList lines i =
             (''<'' @ tag @ ''>'' @ NL @ concat (map itemHtml (item # items)) @ ''</'' @ tag @ ''>'',
              i + 1 + length items)
           \<and> (\<forall>k < length items. \<exists>t. listItemOf (lines ! (i + 1 + k)) = Some (items ! k, t))
           \<and> (i + 1 + length items < length lines \<longrightarrow>
                listItemOf (lines ! (i + 1 + length items)) = None)"
    by blast
qed

lemma list_example_first:
  "listItemOf ''- a'' =
     Some (\<lparr>itype = Unordered, indent = 0, content = ''a'', checked = None\<rparr>, ''ul'')"
  by code_simp

lemma list_example_second:
  "listItemOf ''1. b'' =
     Some (\<lparr>itype = Ordered, indent = 0, content = ''b'', checked = None\<rparr>, ''ol'')"
  by code_simp

text \<open>An unordered item followed by an ordered one: one \<^verbatim>\<open>ul\<close> list with both.\<close>

theorem C7_list_tag_fixed_by_first_item_witness:
  "0 < length [''- a'', ''1. b''] \<and>
   listItemOf ([''- a'', ''1. b''] ! 0) =
     Some (\<lparr>itype = Unordered, indent = 0, content = ''a'', checked = None\<rparr>, ''ul'') \<and>
   listItemOf ([''- a'', ''1. b''] ! 1) =
     Some (\<lparr>itype = Ordered, indent = 0, content = ''b'', checked = None\<rparr>, ''ol'') \<and>
   (\<exists>items j. processList [''- a'', ''1. b''] 0 =
      (''<ul>'' @ NL @
       concat (map itemHtml
         (\<lparr>itype = Unordered, indent = 0, content = ''a'', checked = None\<rparr> # items)) @
       ''</ul>'', j)) \<and>
   processList [''- a'', ''1. b''] 0 =
     (''<ul>'' @ NL @ ''<li>a</li>'' @ NL @ ''<li>b</li>'' @ NL @ ''</ul>'', 2)"
proof -
  have f: "listItemOf ([''- a'', ''1. b''] ! 0) =
     Some (\<lparr>itype = Unordered, indent = 0, content = ''a'', checked = None\<rparr>, ''ul'')"
    using list_example_first by simp
  have l: "0 < length [''- a'', ''1. b'']" by simp
  have v: "processList [''- a'', ''1. b''] 0 =
     (''<ul>'' @ NL @ ''<li>a</li>'' @ NL @ ''<li>b</li>'' @ NL @ ''</ul>'', 2)"
    by code_simp
  from C7_list_tag_fixed_by_first_item [OF l f] f l list_example_second v
  show ?thesis by auto
qed

section \<open>Fenced code blocks without a closing fence\<close>

lemma trim_eq_Nil: "trim l = [] \<longleftrightarrow> list_all is_space l"
proof -
  have "trim l = [] \<longleftrightarrow> (\<forall>x \<in> set (dropWhile is_space l). is_space x)"
    by (simp add: trim_def dropWhile_eq_Nil_conv)
  also have "\<dots> \<longleftrightarrow> list_all is_space l"
    by (induction l) (auto simp: list_all_iff)
  finally show ?thesis .
qed

lemma fence_open_hd:
  "test re_fence_open False l \<Longrightarrow> l \<noteq> [] \<and> hd l = CHR ''`''"
  unfolding test_def re_fence_open_def using rmatch_first [of "\<lambda>x. x = CHR ''`''" 1 "Some 1" _ False l]
  by auto

lemma header_hd:
  "rmatch re_header True l = Some x \<Longrightarrow> l \<noteq> [] \<and> hd l = CHR ''#''"
  unfolding re_header_def using rmatch_first [of "\<lambda>x. x = CHR ''#''" 1 "Some 6" _ True l]
  by auto

lemma fence_open_no_header: "test re_fence_open False l \<Longrightarrow> rmatch re_header True l = None"
  using fence_open_hd [of l] header_hd [of l] by (cases "rmatch re_header True l") auto

lemma fence_open_not_blank: "test re_fence_open False l \<Longrightarrow> trim l \<noteq> []"
proof -
  assume "test re_fence_open False l"
  then have "l \<noteq> []" "hd l = CHR ''`''" using fence_open_hd by auto
  then have "\<not> list_all is_space l" by (cases l) (auto simp: is_space_def)
  then show ?thesis by (simp add: trim_eq_Nil)
qed

lemma fenceLoop_to_end:
  assumes "\<forall>j. i \<le> j \<and> j < length lines \<longrightarrow> \<not> test re_fence_close True (lines ! j)"
    and "i \<le> length lines"
  shows "fenceLoop lines i acc = (acc @ drop i lines, length lines)"
  using assms
proof (induction lines i acc rule: fenceLoop.induct)
  case (1 lines i codeLines)
  show ?case
  proof (cases "i < length lines")
    case False
    with "1.prems" show ?thesis by (subst fenceLoop.simps) simp
  next
    case True
    with "1.prems" have open': "\<not> test re_fence_close True (lines ! i)" by simp
    have "fenceLoop lines (i + 1) (codeLines @ [lines ! i]) = ((codeLines @ [lines ! i]) @ drop (i + 1) lines, length lines)"
      using True open' "1.prems" by (intro "1.IH") auto
    moreover have "drop i lines = lines ! i # drop (i + 1) lines"
      using True by (simp add: Cons_nth_drop_Suc)
    ultimately show ?thesis using True open' by (subst fenceLoop.simps) simp
  qed
qed

lemma escapeHTML_no_angle:
  "CHR ''<'' \<notin> set (escapeHTML s) \<and> CHR ''>'' \<notin> set (escapeHTML s)"
  by (induction s) auto

text \<open>
  Claim C9: a fenced code block whose opening line has no closing fence after it raises no
  error. The block takes every remaining line, its content is the escaped text of those
  lines joined by newlines, with no angle bracket left and no inline processing, inside
  \<^verbatim>\<open><pre><code>\<close>, and the dispatcher, which gets an index past the last line, returns.
\<close>

theorem C9_unterminated_fence_runs_to_end:
  assumes "i < length lines"
    and "test re_fence_open False (lines ! i)"
    and "\<forall>j. i < j \<and> j < length lines \<longrightarrow> \<not> test re_fence_close True (lines ! j)"
  shows \<open>\<exists>cls. processBlockElement lines i =
           Inr (Some (''<pre><code'' @ cls @ ''>'' @ escapeHTML (join NL (drop (i + 1) lines)) @
                      ''</code></pre>'', length lines + 1))
         \<and> dispatchLoop lines i result =
           Some (Inr (join NL (result @
             [''<pre><code'' @ cls @ ''>'' @ escapeHTML (join NL (drop (i + 1) lines)) @
              ''</code></pre>''])))
         \<and> CHR ''<'' \<notin> set (escapeHTML (join NL (drop (i + 1) lines)))
         \<and> CHR ''>'' \<notin> set (escapeHTML (join NL (drop (i + 1) lines)))\<close>
proof -
  let ?cls = \<open>if fenceLanguage (lines ! i) \<noteq> []
              then '' class="language-'' @ fenceLanguage (lines ! i) @ ''"'' else []\<close>
  let ?html = "''<pre><code'' @ ?cls @ ''>'' @ escapeHTML (join NL (drop (i + 1) lines)) @ ''</code></pre>''"
  have loop: "fenceLoop lines (i + 1) [] = ([] @ drop (i + 1) lines, length lines)"
    using assms(1,3) by (intro fenceLoop_to_end) auto
  have fence: "processFencedCodeBlock lines i = Inr (?html, length lines + 1)"
    using assms(1) loop by (simp add: processFencedCodeBlock_def fenceHtml_def)
  have block: "processBlockElement lines i = Inr (Some (?html, length lines + 1))"
    using assms(1,2) fence fence_open_no_header [OF assms(2)]
    by (simp add: processBlockElement_def)
  have "dispatchLoop lines (length lines + 1) (result @ [?html]) = Some (Inr (join NL (result @ [?html])))"
    by (subst dispatchLoop.simps) simp
  then have "dispatchLoop lines i result = Some (Inr (join NL (result @ [?html])))"
    using assms(1) block fence_open_not_blank [OF assms(2)]
    by (subst dispatchLoop.simps) simp
  with block escapeHTML_no_angle show ?thesis by blast
qed

theorem C9_unterminated_fence_runs_to_end_witness:
  \<open>1 < length [''text'', ''```js'', ''<b>'', ''**x**''] \<and>
   test re_fence_open False ([''text'', ''```js'', ''<b>'', ''**x**''] ! 1) \<and>
   \<not> test re_fence_close True ''<b>'' \<and> \<not> test re_fence_close True ''**x**'' \<and>
   processBlockElement [''text'', ''```js'', ''<b>'', ''**x**''] 1 =
     Inr (Some (''<pre><code class="language-js">&lt;b&gt;'' @ NL @ ''**x**</code></pre>'', 5)) \<and>
   dispatchLoop [''text'', ''```js'', ''<b>'', ''**x**''] 1 [''<p>text</p>''] =
     Some (Inr (''<p>text</p>'' @ NL @ ''<pre><code class="language-js">&lt;b&gt;'' @ NL @ ''**x**</code></pre>''))\<close>
proof -
  let ?lines = "[''text'', ''```js'', ''<b>'', ''**x**'']"
  have l: "1 < length ?lines" by simp
  have o: "test re_fence_open False (?lines ! 1)" by code_simp
  have c1: "\<not> test re_fence_close True ''<b>''" by code_simp
  have c2: "\<not> test re_fence_close True ''**x**''" by code_simp
  have c: "\<forall>j. 1 < j \<and> j < length ?lines \<longrightarrow> \<not> test re_fence_close True (?lines ! j)"
  proof (intro allI impI)
    fix j assume "1 < j \<and> j < length ?lines"
    then have "j = 2 \<or> j = 3" by auto
    then show "\<not> test re_fence_close True (?lines ! j)" using c1 c2 by auto
  qed
  have b: "processBlockElement ?lines 1 =
     Inr (Some (''<pre><code class=\"language-js\">&lt;b&gt;'' @ NL @ ''**x**</code></pre>'', 5))"
    by code_simp
  from C9_unterminated_fence_runs_to_end [OF l o c, of "[''<p>text</p>'']"] b
  have "dispatchLoop ?lines 1 [''<p>text</p>''] =
     Some (Inr (''<p>text</p>'' @ NL @ ''<pre><code class=\"language-js\">&lt;b&gt;'' @ NL @ ''**x**</code></pre>''))"
    by auto
  with l o c1 c2 b show ?thesis by blast
qed

section \<open>Paragraphs and the table gate\<close>

lemma processBlockElement_no_error:
  "i < length lines \<Longrightarrow> \<exists>r. processBlockElement lines i = Inr r"
  by (auto simp: processBlockElement_def processFencedCodeBlock_def split: option.splits prod.splits)

lemma paragraphLoop_run:
  "\<exists>n. paragraphLoop lines i acc = Inr (acc @ take n (drop i lines), i + n)"
proof (induction lines i acc rule: paragraphLoop.induct)
  case (1 lines i paragraphLines)
  have stop: "paragraphLoop lines i paragraphLines = Inr (paragraphLines, i) \<Longrightarrow> ?case"
    by (intro exI [of _ 0]) simp
  show ?case
  proof (cases "i < length lines \<and> trim (lines ! i) \<noteq> []")
    case False
    then have "paragraphLoop lines i paragraphLines = Inr (paragraphLines, i)"
      by (subst paragraphLoop.simps) auto
    then show ?thesis by (rule stop)
  next
    case True
    then obtain r where r: "processBlockElement lines i = Inr r"
      using processBlockElement_no_error by blast
    show ?thesis
    proof (cases r)
      case (Some b)
      with True r have "paragraphLoop lines i paragraphLines = Inr (paragraphLines, i)"
        by (subst paragraphLoop.simps) auto
      then show ?thesis by (rule stop)
    next
      case None
      have "\<exists>n. paragraphLoop lines (i + 1) (paragraphLines @ [lines ! i]) =
              Inr ((paragraphLines @ [lines ! i]) @ take n (drop (i + 1) lines), i + 1 + n)"
        using True r None by (intro "1.IH") auto
      then obtain n where n: "paragraphLoop lines (i + 1) (paragraphLines @ [lines ! i]) =
              Inr ((paragraphLines @ [lines ! i]) @ take n (drop (i + 1) lines), i + 1 + n)" ..
      have "take (Suc n) (drop i lines) = lines ! i # take n (drop (i + 1) lines)"
        using True by (simp add: Cons_nth_drop_Suc [symmetric])
      with n True r None
      have "paragraphLoop lines i paragraphLines = Inr (paragraphLines @ take (Suc n) (drop i lines), i + Suc n)"
        by (subst paragraphLoop.simps) simp
      then show ?thesis by blast
    qed
  qed
qed

lemma paragraph_of_plain_line:
  assumes "i < length lines" and "trim (lines ! i) \<noteq> []" and "processBlockElement lines i = Inr None"
  shows "\<exists>n. processParagraph lines i =
           Inr (''<p>'' @ processInlineElements (escapeHTMLInText (join '' '' (take (Suc n) (drop i lines)))) @
                ''</p>'', i + Suc n)"
proof -
  from paragraphLoop_run [of lines "i + 1" "[lines ! i]"] obtain n where
    n: "paragraphLoop lines (i + 1) [lines ! i] = Inr ([lines ! i] @ take n (drop (i + 1) lines), i + 1 + n)" ..
  have t: "take (Suc n) (drop i lines) = lines ! i # take n (drop (i + 1) lines)"
    using assms(1) by (simp add: Cons_nth_drop_Suc [symmetric])
  have "paragraphLoop lines i [] = Inr (take (Suc n) (drop i lines), i + Suc n)"
    using assms n t by (subst paragraphLoop.simps) simp
  then have "processParagraph lines i =
           Inr (''<p>'' @ processInlineElements (escapeHTMLInText (join '' '' (take (Suc n) (drop i lines)))) @
                ''</p>'', i + Suc n)"
    by (simp add: processParagraph_def t)
  then show ?thesis ..
qed

lemma tableLoop_single_row:
  assumes "i + 1 < length lines" and "isTableRow (lines ! i)" and "\<not> isTableRow (lines ! (i + 1))"
  shows "tableLoop lines i [] = ([lines ! i], i + 1)"
proof -
  have "tableLoop lines (i + 1) [lines ! i] = ([lines ! i], i + 1)"
    using assms by (subst tableLoop.simps) simp
  then show ?thesis using assms by (subst tableLoop.simps) simp
qed

text \<open>
  Claim C10: a line with \<^verbatim>\<open>|\<close> passes the lookahead of the table gate because the next line
  matches the separator pattern, but that next line has no \<^verbatim>\<open>|\<close>. Then the collection of
  table lines stops after the first line, \<^verbatim>\<open>processTable\<close> gives \<^verbatim>\<open>null\<close> and so does
  \<^verbatim>\<open>processBlockElement\<close>, and what the dispatcher emits for the line is the paragraph that
  \<^verbatim>\<open>processParagraph\<close> builds from it and the lines it takes after it.
\<close>

theorem C10_separator_without_pipe_gives_paragraph:
  assumes "i + 1 < length lines"
    and "rmatch re_header True (lines ! i) = None"
    and "\<not> test re_fence_open False (lines ! i)"
    and "isTableRow (lines ! i)"
    and "isTableSeparator (lines ! (i + 1))"
    and "CHR ''|'' \<notin> set (lines ! (i + 1))"
  shows "tableLoop lines i [] = ([lines ! i], i + 1) \<and>
         processTable lines i = None \<and>
         processBlockElement lines i = Inr None \<and>
         (\<exists>n. processParagraph lines i =
                 Inr (''<p>'' @
                      processInlineElements (escapeHTMLInText (join '' '' (take (Suc n) (drop i lines)))) @
                      ''</p>'', i + Suc n) \<and>
               dispatchLoop lines i result =
                 dispatchLoop lines (i + Suc n)
                   (result @
                    [''<p>'' @
                     processInlineElements (escapeHTMLInText (join '' '' (take (Suc n) (drop i lines)))) @
                     ''</p>'']))"
proof -
  have norow: "\<not> isTableRow (lines ! (i + 1))" using assms(6) by (simp add: isTableRow_def)
  have loop: "tableLoop lines i [] = ([lines ! i], i + 1)"
    using assms(1,4) norow by (rule tableLoop_single_row)
  then have table: "processTable lines i = None" by (simp add: processTable_def)
  have block: "processBlockElement lines i = Inr None"
    using assms table by (simp add: processBlockElement_def)
  have i: "i < length lines" using assms(1) by simp
  have nonblank: "trim (lines ! i) \<noteq> []" using assms(4) by (simp add: isTableRow_def)
  from paragraph_of_plain_line [OF i nonblank block] obtain n where
    n: "processParagraph lines i =
           Inr (''<p>'' @ processInlineElements (escapeHTMLInText (join '' '' (take (Suc n) (drop i lines)))) @
                ''</p>'', i + Suc n)" ..
  have "dispatchLoop lines i result =
          dispatchLoop lines (i + Suc n)
            (result @ [''<p>'' @
                     processInlineElements (escapeHTMLInText (join '' '' (take (Suc n) (drop i lines)))) @
                     ''</p>''])"
    using i nonblank block n by (subst dispatchLoop.simps) simp
  with loop table block n show ?thesis by blast
qed

theorem C10_separator_without_pipe_gives_paragraph_witness:
  "0 + 1 < length [''a | b'', ''---''] \<and>
   rmatch re_header True ([''a | b'', ''---''] ! 0) = None \<and>
   \<not> test re_fence_open False ([''a | b'', ''---''] ! 0) \<and>
   isTableRow ([''a | b'', ''---''] ! 0) \<and>
   isTableSeparator ([''a | b'', ''---''] ! (0 + 1)) \<and>
   CHR ''|'' \<notin> set ([''a | b'', ''---''] ! (0 + 1)) \<and>
   processTable [''a | b'', ''---''] 0 = None \<and>
   processBlockElement [''a | b'', ''---''] 0 = Inr None \<and>
   processParagraph [''a | b'', ''---''] 0 = Inr (''<p>a | b</p>'', 1) \<and>
   processLines [''a | b'', ''---''] = Some (Inr (''<p>a | b</p>'' @ NL @ ''<hr>''))"
proof -
  let ?lines = "[''a | b'', ''---'']"
  have h1: "0 + 1 < length ?lines" by simp
  have h2: "rmatch re_header True (?lines ! 0) = None" by code_simp
  have h3: "\<not> test re_fence_open False (?lines ! 0)" by code_simp
  have h4: "isTableRow (?lines ! 0)" by code_simp
  have h5: "isTableSeparator (?lines ! (0 + 1))" by code_simp
  have h6: "CHR ''|'' \<notin> set (?lines ! (0 + 1))" by simp
  have p: "processParagraph ?lines 0 = Inr (''<p>a | b</p>'', 1)" by code_simp
  have d: "processLines ?lines = Some (Inr (''<p>a | b</p>'' @ NL @ ''<hr>''))" by code_simp
  from C10_separator_without_pipe_gives_paragraph [OF h1 h2 h3 h4 h5 h6]
  have "processTable ?lines 0 = None \<and> processBlockElement ?lines 0 = Inr None" by blast
  with h1 h2 h3 h4 h5 h6 p d show ?thesis by blast
qed

section \<open>Horizontal rules\<close>

lemma first_nonspace_unique:
  assumes "ws @ c # t = ws' @ c' # t'"
    and "list_all is_space ws" and "\<not> is_space c"
    and "list_all is_space ws'" and "\<not> is_space c'"
  shows "ws = ws' \<and> c = c' \<and> t = t'"
proof -
  have "takeWhile is_space (ws @ c # t) = ws"
    using assms(2,3) by (simp add: list_all_iff takeWhile_append2)
  moreover have "takeWhile is_space (ws' @ c' # t') = ws'"
    using assms(4,5) by (simp add: list_all_iff takeWhile_append2)
  ultimately have "ws = ws'" using assms(1) by simp
  with assms(1) show ?thesis by simp
qed

lemma match3:
  assumes "rmatch [a1, a2, a3] e l = Some x"
  shows "\<exists>g1 g2 g3 r. l = g1 @ g2 @ g3 @ r \<and> atom_ok a1 g1 \<and> atom_ok a2 g2 \<and> atom_ok a3 g3 \<and>
           (e \<longrightarrow> r = []) \<and> x = ([g1, g2, g3], r)"
proof -
  obtain gs r where x: "x = (gs, r)" by (cases x)
  from rmatch_sound [OF assms [unfolded x]] rmatch_split [OF assms [unfolded x]]
  have s: "list_all2 atom_ok [a1, a2, a3] gs" "e \<longrightarrow> r = []" "l = concat gs @ r" by auto
  from s(1) obtain g1 g2 g3 where "gs = [g1, g2, g3]" "atom_ok a1 g1" "atom_ok a2 g2" "atom_ok a3 g3"
    by (auto simp: list_all2_Cons1)
  with s(2,3) x show ?thesis
    by (intro exI [of _ g1] exI [of _ g2] exI [of _ g3] exI [of _ r]) simp
qed

lemma match4:
  assumes "rmatch [a1, a2, a3, a4] e l = Some x"
  shows "\<exists>g1 g2 g3 g4 r. l = g1 @ g2 @ g3 @ g4 @ r \<and> atom_ok a1 g1 \<and> atom_ok a2 g2 \<and>
           atom_ok a3 g3 \<and> atom_ok a4 g4 \<and> (e \<longrightarrow> r = []) \<and> x = ([g1, g2, g3, g4], r)"
proof -
  obtain gs r where x: "x = (gs, r)" by (cases x)
  from rmatch_sound [OF assms [unfolded x]] rmatch_split [OF assms [unfolded x]]
  have s: "list_all2 atom_ok [a1, a2, a3, a4] gs" "e \<longrightarrow> r = []" "l = concat gs @ r" by auto
  from s(1) obtain g1 g2 g3 g4 where "gs = [g1, g2, g3, g4]" "atom_ok a1 g1" "atom_ok a2 g2"
    "atom_ok a3 g3" "atom_ok a4 g4"
    by (auto simp: list_all2_Cons1)
  with s(2,3) x show ?thesis
    by (intro exI [of _ g1] exI [of _ g2] exI [of _ g3] exI [of _ g4] exI [of _ r]) simp
qed

lemma rule_iff:
  "test re_rule True l \<longleftrightarrow>
     (\<exists>a b c. l = a @ b @ c \<and> list_all is_space a \<and> list_all is_rule_char b \<and> 3 \<le> length b \<and>
        list_all is_space c)"
proof
  assume "test re_rule True l"
  then obtain x where "rmatch [Star is_space, Rep is_rule_char 3 None, Star is_space] True l = Some x"
    by (auto simp: test_def re_rule_def)
  from match3 [OF this] show "\<exists>a b c. l = a @ b @ c \<and> list_all is_space a \<and> list_all is_rule_char b \<and> 3 \<le> length b \<and>
        list_all is_space c" by auto
next
  assume "\<exists>a b c. l = a @ b @ c \<and> list_all is_space a \<and> list_all is_rule_char b \<and> 3 \<le> length b \<and>
        list_all is_space c"
  then obtain a b c where l: "l = a @ b @ c" and "list_all is_space a" "list_all is_rule_char b" "3 \<le> length b"
        "list_all is_space c" by blast
  then have "list_all2 atom_ok re_rule [a, b, c]" by (simp add: re_rule_def)
  from rmatch_complete [OF this, of True "[]"] show "test re_rule True l"
    by (simp add: test_def l)
qed

lemma listLoop_tag_values:
  "listLoop lines i acc lt = (items, lt', j) \<Longrightarrow> lt \<in> {None, Some ''ul'', Some ''ol''} \<Longrightarrow>
     lt' \<in> {None, Some ''ul'', Some ''ol''}"
proof (induction lines i acc lt rule: listLoop.induct)
  case (1 lines i listItems listType)
  show ?case
  proof (cases "i < length lines \<and> listItemOf (lines ! i) \<noteq> None")
    case False
    with "1.prems" show ?thesis by (subst (asm) listLoop.simps) (auto split: option.splits)
  next
    case True
    then obtain item tag where s: "listItemOf (lines ! i) = Some (item, tag)" by auto
    then have tag: "tag = ''ul'' \<or> tag = ''ol''" by (auto dest: listItemOf_tag split: if_splits)
    from "1.prems"(1) True s
    have "listLoop lines (i + 1) (listItems @ [item]) (case listType of None \<Rightarrow> Some tag | Some t \<Rightarrow> Some t) = (items, lt', j)"
      by (subst (asm) listLoop.simps) simp
    moreover have "(case listType of None \<Rightarrow> Some tag | Some t \<Rightarrow> Some t) \<in> {None, Some ''ul'', Some ''ol''}"
      using "1.prems"(2) tag by (auto split: option.splits)
    ultimately show ?thesis using "1.IH" [of "(item, tag)" item tag] True s by simp
  qed
qed

lemma show_nat_digit: "show_nat n \<noteq> [] \<and> hd (show_nat n) \<in> set ''0123456789''"
proof (induction n rule: show_nat.induct)
  case (1 n)
  show ?case
  proof (cases "n < 10")
    case True
    then have "n \<in> {0,1,2,3,4,5,6,7,8,9}" by auto
    then show ?thesis by (subst show_nat.simps, subst show_nat.simps) auto
  next
    case False
    with 1 show ?thesis by (subst show_nat.simps, subst show_nat.simps) auto
  qed
qed

lemma header_not_rule: "headerHtml gs \<noteq> ''<hr>''"
proof -
  obtain d ds where "show_nat (length (gs ! 0)) = d # ds" "d \<in> set ''0123456789''"
    using show_nat_digit [of "length (gs ! 0)"] by (cases "show_nat (length (gs ! 0))") auto
  then show ?thesis by (auto simp: headerHtml_def)
qed

lemma list_not_rule: "fst (processList lines i) \<noteq> ''<hr>''"
proof -
  obtain items lt j where l: "listLoop lines i [] None = (items, lt, j)" by (cases "listLoop lines i [] None") auto
  from listLoop_tag_values [OF this] have "lt \<in> {None, Some ''ul'', Some ''ol''}" by simp
  with l show ?thesis by (auto simp: processList_def listTag_def)
qed

lemma rule_line_chars:
  assumes "l = a @ b @ c" "list_all is_space a" "list_all is_rule_char b" "list_all is_space c"
  shows "\<forall>x \<in> set l. is_space x \<or> is_rule_char x"
  using assms by (auto simp: list_all_iff)

lemma rule_char_not_space: "is_rule_char c \<Longrightarrow> \<not> is_space c"
  by (auto simp: is_rule_char_def is_space_def)

lemma marker_not_space: "is_marker c \<Longrightarrow> \<not> is_space c"
  by (auto simp: is_marker_def is_space_def)

lemma digit_not_space: "is_digit c \<Longrightarrow> \<not> is_space c"
  by (auto simp: is_digit_def is_space_def)

lemma digit_not_rule: "is_digit c \<Longrightarrow> \<not> is_rule_char c"
  by (auto simp: is_digit_def is_rule_char_def)

lemma rule_only:
  assumes i: "i < length lines" and r: "test re_rule True (lines ! i)"
  shows "processBlockElement lines i = Inr (Some (''<hr>'', i + 1))"
proof -
  from r obtain a b c where l: "lines ! i = a @ b @ c" and a: "list_all is_space a"
    and b: "list_all is_rule_char b" and n: "3 \<le> length b" and c: "list_all is_space c"
    by (auto simp: rule_iff)
  have chars: "\<forall>x \<in> set (lines ! i). is_space x \<or> is_rule_char x"
    using l a b c by (rule rule_line_chars)
  obtain b0 b1 b' where bs: "b = b0 # b1 # b'" using n by (cases b; cases "tl b") auto
  have b0: "is_rule_char b0" "\<not> is_space b0" and b1: "is_rule_char b1" "\<not> is_space b1"
    using b bs rule_char_not_space by auto
  have split: "lines ! i = a @ b0 # (b1 # b' @ c)" by (simp add: l bs)
  have ne: "lines ! i \<noteq> []" by (simp add: l bs)
  then have hd: "is_space (hd (lines ! i)) \<or> is_rule_char (hd (lines ! i))" using chars by simp
  have "\<not> is_space CHR ''#''" "\<not> is_rule_char CHR ''#''"
    by (simp_all add: is_space_def is_rule_char_def)
  with hd have "\<not> (hd (lines ! i) = CHR ''#'')" by auto
  then have header: "rmatch re_header True (lines ! i) = None"
    unfolding re_header_def by (intro rmatch_first_None) simp_all
  have fence: "\<not> test re_fence_open False (lines ! i)"
  proof
    assume "test re_fence_open False (lines ! i)"
    then have "hd (lines ! i) = CHR ''`''" by (simp add: fence_open_hd)
    moreover have "\<not> is_space CHR ''`''" "\<not> is_rule_char CHR ''`''"
      by (simp_all add: is_space_def is_rule_char_def)
    ultimately show False using hd by auto
  qed
  have "\<not> is_space CHR ''|''" "\<not> is_rule_char CHR ''|''"
    by (simp_all add: is_space_def is_rule_char_def)
  with chars have "CHR ''|'' \<notin> set (lines ! i)" by blast
  then have table: "\<not> isTableRow (lines ! i)" by (simp add: isTableRow_def)
  have ul: "\<not> test re_list_gate_ul False (lines ! i)"
  proof
    assume "test re_list_gate_ul False (lines ! i)"
    then obtain x where "rmatch [Star is_space, Cls is_marker, Cls is_space] False (lines ! i) = Some x"
      by (auto simp: test_def re_list_gate_ul_def)
    from match3 [OF this] obtain g1 g2 g3 r where
      g0: "lines ! i = g1 @ g2 @ g3 @ r" "list_all is_space g1" "list_all is_marker g2"
        "length g2 = 1" "list_all is_space g3" "length g3 = 1"
      by auto
    then obtain m s where "g2 = [m]" "g3 = [s]" by (auto simp: length_Suc_conv)
    with g0 have
      g: "lines ! i = g1 @ [m] @ [s] @ r" "list_all is_space g1" "is_marker m" "is_space s"
      by auto
    then have "\<not> is_space m" by (simp add: marker_not_space)
    from first_nonspace_unique [OF _ a b0(2) g(2) this, of "b1 # b' @ c" "s # r"] split g(1)
    have "b1 = s" by simp
    with b1(2) g(4) show False by simp
  qed
  have ol: "\<not> test re_list_gate_ol False (lines ! i)"
  proof
    assume "test re_list_gate_ol False (lines ! i)"
    then obtain x where "rmatch [Star is_space, Plus is_digit, Lit CHR ''.'', Cls is_space] False (lines ! i) = Some x"
      by (auto simp: test_def re_list_gate_ol_def)
    from match4 [OF this] obtain g1 g2 g3 g4 r where
      g: "lines ! i = g1 @ g2 @ g3 @ g4 @ r" "list_all is_space g1" "list_all is_digit g2" "1 \<le> length g2"
      by auto
    then obtain d ds where d: "g2 = d # ds" "is_digit d" by (cases g2) auto
    then have "\<not> is_space d" by (simp add: digit_not_space)
    from first_nonspace_unique [OF _ a b0(2) g(2) this, of "b1 # b' @ c" "ds @ g3 @ g4 @ r"] split g(1) d(1)
    have "b0 = d" by simp
    with b0(1) d(2) show False by (simp add: digit_not_rule)
  qed
  have quote: "\<not> test re_quote False (lines ! i)"
  proof
    assume "test re_quote False (lines ! i)"
    then obtain x where "rmatch [Star is_space, Lit CHR ''>'', Cls is_space] False (lines ! i) = Some x"
      by (auto simp: test_def re_quote_def)
    from match3 [OF this] obtain g1 g2 g3 r where
      g0: "lines ! i = g1 @ g2 @ g3 @ r" "list_all is_space g1" "list_all (\<lambda>x. x = CHR ''>'') g2"
        "length g2 = 1" "list_all is_space g3" "length g3 = 1"
      by auto
    then obtain m s where "g2 = [m]" "g3 = [s]" by (auto simp: length_Suc_conv)
    with g0 have
      g: "lines ! i = g1 @ [m] @ [s] @ r" "list_all is_space g1" "m = CHR ''>''"
      by auto
    then have "\<not> is_space m" by (simp add: is_space_def)
    from first_nonspace_unique [OF _ a b0(2) g(2) this, of "b1 # b' @ c" "s # r"] split g(1)
    have "b0 = m" by simp
    with b0(1) g(3) show False by (simp add: is_rule_char_def)
  qed
  show ?thesis
    using i header fence table ul ol quote r by (simp add: processBlockElement_def)
qed

lemma rule_result_only_from_rule:
  assumes i: "i < length lines" and r: "processBlockElement lines i = Inr (Some (''<hr>'', i + 1))"
  shows "test re_rule True (lines ! i)"
proof (rule ccontr)
  assume n: "\<not> test re_rule True (lines ! i)"
  have fence: "processFencedCodeBlock lines i \<noteq> Inr (''<hr>'', i + 1)"
    using i by (auto simp: processFencedCodeBlock_def fenceHtml_def split: prod.splits)
  have tab: "processTable lines i \<noteq> Some (''<hr>'', i + 1)"
    by (auto simp: processTable_def tableHtml_def split: prod.splits)
  have lst: "processList lines i \<noteq> (''<hr>'', i + 1)"
    using list_not_rule [of lines i] by (cases "processList lines i") auto
  have quo: "processBlockquote lines i \<noteq> (''<hr>'', i + 1)"
    by (auto simp: processBlockquote_def split: prod.splits)
  from r i n fence tab lst quo header_not_rule show False
    by (auto simp: processBlockElement_def map_sum_def split: option.splits if_splits sum.splits)
qed

text \<open>
  Claim C6, as amended: the Horizontal Rule processor takes exactly the lines made of optional
  whitespace, three or more characters each of which is one of \<^verbatim>\<open>-\<close>, \<^verbatim>\<open>*\<close> and
  \<^verbatim>\<open>_\<close> (in any mixture, with no whitespace between them) and optional whitespace; it emits
  \<^verbatim>\<open><hr>\<close> and consumes one line. No earlier processor takes such a line, and no other
  line gives this result.
\<close>

theorem C6_rule_lines:
  assumes "i < length lines"
  shows "processBlockElement lines i = Inr (Some (''<hr>'', i + 1)) \<longleftrightarrow>
         (\<exists>a b c. lines ! i = a @ b @ c \<and> list_all is_space a \<and> list_all is_rule_char b \<and>
                  3 \<le> length b \<and> list_all is_space c)"
  using rule_only [OF assms] rule_result_only_from_rule [OF assms] rule_iff [of "lines ! i"]
  by blast

theorem C6_rule_lines_witness:
  "0 < length [''  ***  ''] \<and>
   ''  ***  '' = ''  '' @ ''***'' @ ''  '' \<and>
   processBlockElement [''  ***  ''] 0 = Inr (Some (''<hr>'', 0 + 1))"
proof -
  have l: "0 < length [''  ***  '']" by simp
  have "\<exists>a b c. [''  ***  ''] ! 0 = a @ b @ c \<and> list_all is_space a \<and> list_all is_rule_char b \<and>
                  3 \<le> length b \<and> list_all is_space c"
    by (intro exI [of _ "''  ''"] exI [of _ "''***''"]) (simp add: is_space_def is_rule_char_def)
  with C6_rule_lines [OF l] show ?thesis by simp
qed

text \<open>
  The claim as stated excludes a mixture of different rule characters. The pattern is a
  character class repeated, so the line \<^verbatim>\<open>-*_\<close> is a rule.
\<close>

theorem C6_mixed_rule_characters_counterexample:
  "processBlockElement [''-*_''] 0 = Inr (Some (''<hr>'', 1))"
  by code_simp

section \<open>Blockquotes\<close>

lemma rmatch_capped:
  assumes "list_all p g" and "lo \<le> length g"
    and "rmatch as e t = Some (gs, r)"
  shows "rmatch (Rep p lo (Some (length g)) # as) e (g @ t) = Some (g # gs, r)"
proof -
  have "length g \<le> length (takeWhile p (g @ t))"
    using assms(1) by (intro takeWhile_length_ge) auto
  then have "counts p lo (Some (length g)) (g @ t) = length g # rev [lo..<length g]"
    using assms(2) by (simp add: counts_def min_def)
  then show ?thesis
    using assms(3) by (simp add: rmatch.simps)
qed

lemma rmatch_skip_optional:
  assumes "t = [] \<or> \<not> p (hd t)" and "rmatch as e t = Some (gs, r)"
  shows "rmatch (Rep p 0 hi # as) e t = Some ([] # gs, r)"
  using rmatch_greedy [of p "[]" t 0 hi as e gs r] assms by (auto split: option.splits)

lemma quote_iff:
  "test re_quote False l \<longleftrightarrow>
     (\<exists>ws c rest. l = ws @ CHR ''>'' # c # rest \<and> list_all is_space ws \<and> is_space c)"
proof
  assume "test re_quote False l"
  then obtain x where "rmatch [Star is_space, Lit CHR ''>'', Cls is_space] False l = Some x"
    by (auto simp: test_def re_quote_def)
  from match3 [OF this] obtain g1 g2 g3 r where
    g0: "l = g1 @ g2 @ g3 @ r" "list_all is_space g1" "list_all (\<lambda>x. x = CHR ''>'') g2"
      "length g2 = 1" "list_all is_space g3" "length g3 = 1"
    by auto
  then obtain m s where "g2 = [m]" "g3 = [s]" by (auto simp: length_Suc_conv)
  with g0 show "\<exists>ws c rest. l = ws @ CHR ''>'' # c # rest \<and> list_all is_space ws \<and> is_space c"
    by auto
next
  assume "\<exists>ws c rest. l = ws @ CHR ''>'' # c # rest \<and> list_all is_space ws \<and> is_space c"
  then obtain ws c rest where l: "l = ws @ CHR ''>'' # c # rest" and "list_all is_space ws" "is_space c"
    by blast
  then have "list_all2 atom_ok re_quote [ws, ''>'', [c]]" by (simp add: re_quote_def)
  from rmatch_complete [OF this, of False rest] show "test re_quote False l"
    by (simp add: test_def l)
qed

lemma stripQuoteMarker_line:
  assumes "list_all is_space ws" and "is_space c"
  shows "stripQuoteMarker (ws @ CHR ''>'' # c # rest) = rest"
proof -
  have 3: "rmatch [Opt is_space] False ([c] @ rest) = Some ([[c]], rest)"
    using rmatch_capped [of is_space "[c]" 0 "[]" False rest "[]" rest] assms(2) by simp
  have 2: "rmatch [Lit CHR ''>'', Opt is_space] False (''>'' @ c # rest) = Some ([''>'', [c]], rest)"
    using rmatch_capped [of "\<lambda>x. x = CHR ''>''" "''>''" 1 "[Opt is_space]" False "c # rest" "[[c]]" rest] 3
    by simp
  have "\<not> is_space CHR ''>''" by (simp add: is_space_def)
  then have "rmatch [Star is_space, Lit CHR ''>'', Opt is_space] False (ws @ CHR ''>'' # c # rest)
      = Some ([ws, ''>'', [c]], rest)"
    using rmatch_greedy [of is_space ws "CHR ''>'' # c # rest" 0 None "[Lit CHR ''>'', Opt is_space]" False
        "[''>'', [c]]" rest] assms(1) 2
    by simp
  then show ?thesis by (simp add: stripQuoteMarker_def re_quote_marker_def)
qed

lemma quoteLoop_run:
  "\<exists>n. quoteLoop lines i acc = (acc @ map stripQuoteMarker (take n (drop i lines)), i + n) \<and>
       list_all (test re_quote False) (take n (drop i lines)) \<and>
       i + n \<le> max i (length lines) \<and>
       (i + n < length lines \<longrightarrow> \<not> test re_quote False (lines ! (i + n)))"
proof (induction lines i acc rule: quoteLoop.induct)
  case (1 lines i quoteLines)
  show ?case
  proof (cases "i < length lines \<and> test re_quote False (lines ! i)")
    case False
    then have "quoteLoop lines i quoteLines = (quoteLines, i)"
      by (subst quoteLoop.simps) auto
    with False show ?thesis by (intro exI [of _ 0]) auto
  next
    case True
    have "\<exists>n. quoteLoop lines (i + 1) (quoteLines @ [stripQuoteMarker (lines ! i)]) =
            ((quoteLines @ [stripQuoteMarker (lines ! i)]) @ map stripQuoteMarker (take n (drop (i + 1) lines)),
             i + 1 + n) \<and>
            list_all (test re_quote False) (take n (drop (i + 1) lines)) \<and>
            i + 1 + n \<le> max (i + 1) (length lines) \<and>
            (i + 1 + n < length lines \<longrightarrow> \<not> test re_quote False (lines ! (i + 1 + n)))"
      using True by (intro "1.IH") auto
    then obtain n where
      n: "quoteLoop lines (i + 1) (quoteLines @ [stripQuoteMarker (lines ! i)]) =
            ((quoteLines @ [stripQuoteMarker (lines ! i)]) @ map stripQuoteMarker (take n (drop (i + 1) lines)),
             i + 1 + n)"
      and a: "list_all (test re_quote False) (take n (drop (i + 1) lines))"
      and b: "i + 1 + n \<le> max (i + 1) (length lines)"
      and c: "i + 1 + n < length lines \<longrightarrow> \<not> test re_quote False (lines ! (i + 1 + n))"
      by (elim exE conjE)
    have t: "take (Suc n) (drop i lines) = lines ! i # take n (drop (i + 1) lines)"
      using True by (simp add: Cons_nth_drop_Suc [symmetric])
    have "quoteLoop lines i quoteLines =
            (quoteLines @ map stripQuoteMarker (take (Suc n) (drop i lines)), i + Suc n)"
      using True n t by (subst quoteLoop.simps) simp
    moreover have "list_all (test re_quote False) (take (Suc n) (drop i lines))"
      using True a t by simp
    moreover have "i + Suc n \<le> max i (length lines)" using b True by simp
    moreover have "i + Suc n < length lines \<longrightarrow> \<not> test re_quote False (lines ! (i + Suc n))"
      using c by simp
    ultimately show ?thesis by (intro exI [of _ "Suc n"] conjI)
  qed
qed

lemma quote_line_reaches_quote_branch:
  assumes l: "l = ws @ CHR ''>'' # c # rest" and ws: "list_all is_space ws" and c: "is_space c"
  shows "rmatch re_header True l = None \<and> \<not> test re_fence_open False l \<and>
         \<not> test re_list_gate_ul False l \<and> \<not> test re_list_gate_ol False l"
proof (intro conjI)
  have gt: "\<not> is_space CHR ''>''" by (simp add: is_space_def)
  have hd: "is_space (hd l) \<or> hd l = CHR ''>''" using l ws by (cases ws) auto
  have "\<not> is_space CHR ''#''" by (simp add: is_space_def)
  with hd have "\<not> (hd l = CHR ''#'')" by auto
  then show "rmatch re_header True l = None"
    unfolding re_header_def by (intro rmatch_first_None) simp_all
  show "\<not> test re_fence_open False l"
  proof
    assume "test re_fence_open False l"
    then have "hd l = CHR ''`''" by (simp add: fence_open_hd)
    moreover have "\<not> is_space CHR ''`''" by (simp add: is_space_def)
    ultimately show False using hd by auto
  qed
  show "\<not> test re_list_gate_ul False l"
  proof
    assume "test re_list_gate_ul False l"
    then obtain x where "rmatch [Star is_space, Cls is_marker, Cls is_space] False l = Some x"
      by (auto simp: test_def re_list_gate_ul_def)
    from match3 [OF this] obtain g1 g2 g3 r where
      g0: "l = g1 @ g2 @ g3 @ r" "list_all is_space g1" "list_all is_marker g2"
        "length g2 = 1" "list_all is_space g3" "length g3 = 1"
      by auto
    then obtain m s where "g2 = [m]" "g3 = [s]" by (auto simp: length_Suc_conv)
    with g0 have
      g: "l = g1 @ [m] @ [s] @ r" "list_all is_space g1" "is_marker m" "is_space s"
      by auto
    then have "\<not> is_space m" by (simp add: marker_not_space)
    from first_nonspace_unique [OF _ ws gt g(2) this, of "c # rest" "s # r"] l g(1)
    have "m = CHR ''>''" by simp
    with g(3) show False by (simp add: is_marker_def)
  qed
  show "\<not> test re_list_gate_ol False l"
  proof
    assume "test re_list_gate_ol False l"
    then obtain x where "rmatch [Star is_space, Plus is_digit, Lit CHR ''.'', Cls is_space] False l = Some x"
      by (auto simp: test_def re_list_gate_ol_def)
    from match4 [OF this] obtain g1 g2 g3 g4 r where
      g: "l = g1 @ g2 @ g3 @ g4 @ r" "list_all is_space g1" "list_all is_digit g2" "1 \<le> length g2"
      by auto
    then obtain d ds where d: "g2 = d # ds" "is_digit d" by (cases g2) auto
    then have "\<not> is_space d" by (simp add: digit_not_space)
    from first_nonspace_unique [OF _ ws gt g(2) this, of "c # rest" "ds @ g3 @ g4 @ r"] l g(1) d(1)
    have "d = CHR ''>''" by simp
    with d(2) show False by (simp add: is_digit_def)
  qed
qed

text \<open>
  Claim C5, as amended: the Blockquote processor takes a run of lines each of which begins with
  optional whitespace, \<^verbatim>\<open>>\<close> and one whitespace character, which is required. When the
  line at \<open>i\<close> is such a line and the table gate does not take it, the block is the run of
  such lines from \<open>i\<close> up to the first line that is not one, each stripped of its leading
  whitespace, its marker and one whitespace character, joined by newlines, passed through the
  Inline Engine and wrapped in \<^verbatim>\<open><blockquote>\<close>.
\<close>

theorem C5_blockquote_lines:
  assumes "i < length lines"
    and "lines ! i = ws @ CHR ''>'' # c # rest" and "list_all is_space ws" and "is_space c"
    and "\<not> (isTableRow (lines ! i) \<and> i + 1 < length lines \<and> isTableSeparator (lines ! (i + 1)))"
  shows "stripQuoteMarker (lines ! i) = rest \<and>
         (\<exists>n. processBlockElement lines i =
                 Inr (Some (''<blockquote>'' @
                            processInlineElements
                              (join NL (map stripQuoteMarker (take (Suc n) (drop i lines)))) @
                            ''</blockquote>'', i + Suc n)) \<and>
               i + Suc n \<le> length lines \<and>
               list_all (test re_quote False) (take (Suc n) (drop i lines)) \<and>
               (i + Suc n < length lines \<longrightarrow> \<not> test re_quote False (lines ! (i + Suc n))))"
proof
  show "stripQuoteMarker (lines ! i) = rest"
    unfolding assms(2) using assms(3,4) by (rule stripQuoteMarker_line)
  have q: "test re_quote False (lines ! i)"
    using assms(2,3,4) quote_iff by blast
  from quote_line_reaches_quote_branch [OF assms(2,3,4)]
  have early: "rmatch re_header True (lines ! i) = None" "\<not> test re_fence_open False (lines ! i)"
      "\<not> test re_list_gate_ul False (lines ! i)" "\<not> test re_list_gate_ol False (lines ! i)"
    by auto
  have block: "processBlockElement lines i = Inr (Some (processBlockquote lines i))"
    using assms(1,5) early q by (auto simp: processBlockElement_def)
  from quoteLoop_run [of lines "i + 1" "[stripQuoteMarker (lines ! i)]"] obtain n where
    n: "quoteLoop lines (i + 1) [stripQuoteMarker (lines ! i)] =
          ([stripQuoteMarker (lines ! i)] @ map stripQuoteMarker (take n (drop (i + 1) lines)), i + 1 + n)"
    and a: "list_all (test re_quote False) (take n (drop (i + 1) lines))"
    and b: "i + 1 + n \<le> max (i + 1) (length lines)"
    and c: "i + 1 + n < length lines \<longrightarrow> \<not> test re_quote False (lines ! (i + 1 + n))"
    by (elim exE conjE)
  have t: "take (Suc n) (drop i lines) = lines ! i # take n (drop (i + 1) lines)"
    using assms(1) by (simp add: Cons_nth_drop_Suc [symmetric])
  have "quoteLoop lines i [] = (map stripQuoteMarker (take (Suc n) (drop i lines)), i + Suc n)"
    using assms(1) q n t by (subst quoteLoop.simps) simp
  then have "processBlockElement lines i =
                 Inr (Some (''<blockquote>'' @
                            processInlineElements
                              (join NL (map stripQuoteMarker (take (Suc n) (drop i lines)))) @
                            ''</blockquote>'', i + Suc n))"
    by (simp add: block processBlockquote_def)
  moreover have "i + Suc n \<le> length lines" using b assms(1) by simp
  moreover have "list_all (test re_quote False) (take (Suc n) (drop i lines))"
    using q a t by simp
  moreover have "i + Suc n < length lines \<longrightarrow> \<not> test re_quote False (lines ! (i + Suc n))"
    using c by simp
  ultimately show "\<exists>n. processBlockElement lines i =
                 Inr (Some (''<blockquote>'' @
                            processInlineElements
                              (join NL (map stripQuoteMarker (take (Suc n) (drop i lines)))) @
                            ''</blockquote>'', i + Suc n)) \<and>
               i + Suc n \<le> length lines \<and>
               list_all (test re_quote False) (take (Suc n) (drop i lines)) \<and>
               (i + Suc n < length lines \<longrightarrow> \<not> test re_quote False (lines ! (i + Suc n)))"
    by blast
qed

theorem C5_blockquote_lines_witness:
  "0 < length [''> one'', ''  > two'', ''>three''] \<and>
   [''> one'', ''  > two'', ''>three''] ! 0 = [] @ CHR ''>'' # CHR '' '' # ''one'' \<and>
   list_all is_space [] \<and> is_space CHR '' '' \<and>
   \<not> (isTableRow ([''> one'', ''  > two'', ''>three''] ! 0) \<and>
      0 + 1 < length [''> one'', ''  > two'', ''>three''] \<and>
      isTableSeparator ([''> one'', ''  > two'', ''>three''] ! (0 + 1))) \<and>
   stripQuoteMarker ([''> one'', ''  > two'', ''>three''] ! 0) = ''one'' \<and>
   processBlockElement [''> one'', ''  > two'', ''>three''] 0 =
     Inr (Some (''<blockquote>one'' @ NL @ ''two</blockquote>'', 2)) \<and>
   \<not> test re_quote False ''>three''"
proof -
  let ?L = "[''> one'', ''  > two'', ''>three'']"
  have h1: "0 < length ?L" by simp
  have h2: "?L ! 0 = [] @ CHR ''>'' # CHR '' '' # ''one''" by simp
  have h3: "list_all is_space []" by simp
  have h4: "is_space CHR '' ''" by (simp add: is_space_def)
  have "\<not> isTableRow (?L ! 0)" by (simp add: isTableRow_def)
  then have h5: "\<not> (isTableRow (?L ! 0) \<and> 0 + 1 < length ?L \<and> isTableSeparator (?L ! (0 + 1)))"
    by simp
  have v: "processBlockElement ?L 0 = Inr (Some (''<blockquote>one'' @ NL @ ''two</blockquote>'', 2))"
    by code_simp
  have n: "\<not> test re_quote False ''>three''" by code_simp
  from C5_blockquote_lines [OF h1 h2 h3 h4 h5] have "stripQuoteMarker (?L ! 0) = ''one''" by blast
  with h1 h2 h3 h4 h5 v n show ?thesis by blast
qed

text \<open>
  The claim as stated takes the space after the marker to be optional. A line with no space
  after \<^verbatim>\<open>>\<close> does not pass the gate \<^verbatim>\<open>/^\s*>\s/\<close> and is rendered as a paragraph.
\<close>

theorem C5_marker_without_space_counterexample:
  "processBlockElement [''>quote''] 0 = Inr None \<and>
   processLines [''>quote''] = Some (Inr ''<p>>quote</p>'')"
proof
  show "processBlockElement [''>quote''] 0 = Inr None" by code_simp
  show "processLines [''>quote''] = Some (Inr ''<p>>quote</p>'')" by code_simp
qed

section \<open>Headers\<close>

lemma header_match:
  assumes n: "1 \<le> n" "n \<le> 6" and ws: "ws \<noteq> []" "list_all is_space ws"
    and tx: "text \<noteq> []" "\<not> is_space (hd text)" "list_all any_char text"
  shows "rmatch re_header True (replicate n CHR ''#'' @ ws @ text) =
           Some ([replicate n CHR ''#'', ws, text], [])"
proof -
  have e: "rmatch [] True [] = Some ([], [])" by simp
  have 3: "rmatch [Plus any_char] True (text @ []) = Some ([text], [])"
    using rmatch_greedy [of any_char "text" "[]" 1 None "[]" True "[]" "[]"] tx e
    by (simp add: Suc_le_eq)
  have 2: "rmatch [Plus is_space, Plus any_char] True (ws @ text) = Some ([ws, text], [])"
    using rmatch_greedy [of is_space ws "text" 1 None "[Plus any_char]" True "[text]" "[]"] ws tx 3
    by (simp add: Suc_le_eq)
  have "\<not> is_space CHR ''#''" by (simp add: is_space_def)
  then have "hd (ws @ text) \<noteq> CHR ''#''" using ws by (cases ws) auto
  then show ?thesis
    unfolding re_header_def
    using rmatch_greedy [of "\<lambda>c. c = CHR ''#''" "replicate n CHR ''#''" "ws @ text" 1 "Some 6"
        "[Plus is_space, Plus any_char]" True "[ws, text]" "[]"] n 2
    by (simp add: list_all_iff)
qed

lemma header_seven:
  assumes "7 \<le> n"
  shows "rmatch re_header True (replicate n CHR ''#'' @ rest) = None"
proof (rule ccontr)
  assume "rmatch re_header True (replicate n CHR ''#'' @ rest) \<noteq> None"
  then obtain x where "rmatch [Rep (\<lambda>c. c = CHR ''#'') 1 (Some 6), Plus is_space, Plus any_char] True
      (replicate n CHR ''#'' @ rest) = Some x"
    by (auto simp: re_header_def)
  from match3 [OF this] obtain g1 g2 g3 r where
    g0: "replicate n CHR ''#'' @ rest = g1 @ g2 @ g3 @ r"
      "atom_ok (Rep (\<lambda>c. c = CHR ''#'') 1 (Some 6)) g1" "atom_ok (Plus is_space) g2"
    by blast
  then have g: "replicate n CHR ''#'' @ rest = g1 @ g2 @ g3 @ r" "length g1 \<le> 6"
      "list_all is_space g2" "1 \<le> length g2"
    by simp_all
  then obtain s g2' where s: "g2 = s # g2'" "is_space s" by (cases g2) auto
  have "(replicate n CHR ''#'' @ rest) ! length g1 = CHR ''#''"
    using g(2) assms by (simp add: nth_append)
  moreover have "(g1 @ g2 @ g3 @ r) ! length g1 = s" by (simp add: s)
  ultimately have "s = CHR ''#''" using g(1) by simp
  with s(2) show False by (simp add: is_space_def)
qed

lemma hash_line_no_other_block:
  assumes l: "l = CHR ''#'' # t"
  shows "\<not> test re_fence_open False l \<and> \<not> test re_list_gate_ul False l \<and>
         \<not> test re_list_gate_ol False l \<and> \<not> test re_quote False l \<and> \<not> test re_rule True l"
proof (intro conjI)
  have h: "\<not> is_space CHR ''#''" by (simp add: is_space_def)
  have split: "l = [] @ CHR ''#'' # t" using l by simp
  have e: "list_all is_space []" by simp
  show "\<not> test re_fence_open False l"
    using fence_open_hd [of l] l by auto
  show "\<not> test re_list_gate_ul False l"
  proof
    assume "test re_list_gate_ul False l"
    then obtain x where "rmatch [Star is_space, Cls is_marker, Cls is_space] False l = Some x"
      by (auto simp: test_def re_list_gate_ul_def)
    from match3 [OF this] obtain g1 g2 g3 r where
      g: "l = g1 @ g2 @ g3 @ r" "list_all is_space g1" "list_all is_marker g2" "length g2 = 1"
      by auto
    then obtain m where m: "g2 = [m]" "is_marker m" by (cases g2) auto
    then have "\<not> is_space m" by (simp add: marker_not_space)
    from first_nonspace_unique [OF _ e h g(2) this, of t "g3 @ r"] split g(1) m(1)
    have "m = CHR ''#''" by simp
    with m(2) show False by (simp add: is_marker_def)
  qed
  show "\<not> test re_list_gate_ol False l"
  proof
    assume "test re_list_gate_ol False l"
    then obtain x where "rmatch [Star is_space, Plus is_digit, Lit CHR ''.'', Cls is_space] False l = Some x"
      by (auto simp: test_def re_list_gate_ol_def)
    from match4 [OF this] obtain g1 g2 g3 g4 r where
      g: "l = g1 @ g2 @ g3 @ g4 @ r" "list_all is_space g1" "list_all is_digit g2" "1 \<le> length g2"
      by auto
    then obtain d ds where d: "g2 = d # ds" "is_digit d" by (cases g2) auto
    then have "\<not> is_space d" by (simp add: digit_not_space)
    from first_nonspace_unique [OF _ e h g(2) this, of t "ds @ g3 @ g4 @ r"] split g(1) d(1)
    have "d = CHR ''#''" by simp
    with d(2) show False by (simp add: is_digit_def)
  qed
  show "\<not> test re_quote False l"
  proof
    assume "test re_quote False l"
    then obtain ws c rest where q: "l = ws @ CHR ''>'' # c # rest" "list_all is_space ws"
      by (auto simp: quote_iff)
    have "\<not> is_space CHR ''>''" by (simp add: is_space_def)
    from first_nonspace_unique [OF _ e h q(2) this, of t "c # rest"] split q(1)
    show False by simp
  qed
  show "\<not> test re_rule True l"
  proof
    assume "test re_rule True l"
    then obtain a b c where r: "l = a @ b @ c" "list_all is_space a" "list_all is_rule_char b" "3 \<le> length b"
      by (auto simp: rule_iff)
    then obtain b0 b' where b: "b = b0 # b'" "is_rule_char b0" by (cases b) auto
    then have "\<not> is_space b0" by (simp add: rule_char_not_space)
    from first_nonspace_unique [OF _ e h r(2) this, of t "b' @ c"] split r(1) b(1)
    have "b0 = CHR ''#''" by simp
    with b(2) show False by (simp add: is_rule_char_def)
  qed
qed

text \<open>
  Claim C8, as amended: a line of one to six \<^verbatim>\<open>#\<close>, whitespace and a text (with no line
  terminator, starting with a character that is no whitespace) is a header of the level given
  by the number of \<^verbatim>\<open>#\<close>. A line that starts with seven or more \<^verbatim>\<open>#\<close> does not match
  the header pattern; it becomes paragraph text unless it is the first row of a table (it has
  a \<^verbatim>\<open>|\<close> and the next line is a separator line that has one too).
\<close>

theorem C8_header_levels:
  assumes "i < length lines"
  shows "(1 \<le> n \<and> n \<le> 6 \<and> ws \<noteq> [] \<and> list_all is_space ws \<and>
          text \<noteq> [] \<and> \<not> is_space (hd text) \<and> list_all any_char text \<and>
          lines ! i = replicate n CHR ''#'' @ ws @ text \<longrightarrow>
            processBlockElement lines i =
              Inr (Some (''<h'' @ show_nat n @ ''>'' @ processInlineElements text @
                         ''</h'' @ show_nat n @ ''>'', i + 1))) \<and>
         (7 \<le> n \<and> lines ! i = replicate n CHR ''#'' @ rest \<longrightarrow>
            rmatch re_header True (lines ! i) = None \<and>
            (\<not> (isTableRow (lines ! i) \<and> i + 1 < length lines \<and>
                isTableSeparator (lines ! (i + 1)) \<and> isTableRow (lines ! (i + 1))) \<longrightarrow>
               processBlockElement lines i = Inr None \<and>
               (\<exists>m. processParagraph lines i =
                       Inr (''<p>'' @
                            processInlineElements
                              (escapeHTMLInText (join '' '' (take (Suc m) (drop i lines)))) @
                            ''</p>'', i + Suc m))))"
proof (intro conjI impI)
  assume a: "1 \<le> n \<and> n \<le> 6 \<and> ws \<noteq> [] \<and> list_all is_space ws \<and>
          text \<noteq> [] \<and> \<not> is_space (hd text) \<and> list_all any_char text \<and>
          lines ! i = replicate n CHR ''#'' @ ws @ text"
  then have "rmatch re_header True (lines ! i) = Some ([replicate n CHR ''#'', ws, text], [])"
    using header_match [of n ws "text"] by simp
  then show "processBlockElement lines i =
              Inr (Some (''<h'' @ show_nat n @ ''>'' @ processInlineElements text @
                         ''</h'' @ show_nat n @ ''>'', i + 1))"
    using assms by (simp add: processBlockElement_def headerHtml_def)
next
  assume a: "7 \<le> n \<and> lines ! i = replicate n CHR ''#'' @ rest"
  then show h: "rmatch re_header True (lines ! i) = None"
    using header_seven [of n rest] by simp
  assume t: "\<not> (isTableRow (lines ! i) \<and> i + 1 < length lines \<and>
                isTableSeparator (lines ! (i + 1)) \<and> isTableRow (lines ! (i + 1)))"
  from a obtain k where "n = Suc k" by (cases n) auto
  with a have l: "lines ! i = CHR ''#'' # (replicate k CHR ''#'' @ rest)" by simp
  note others = hash_line_no_other_block [OF l]
  have table: "isTableRow (lines ! i) \<and> i + 1 < length lines \<and> isTableSeparator (lines ! (i + 1))
      \<Longrightarrow> processTable lines i = None"
  proof -
    assume g: "isTableRow (lines ! i) \<and> i + 1 < length lines \<and> isTableSeparator (lines ! (i + 1))"
    with t have "\<not> isTableRow (lines ! (i + 1))" by blast
    with g have "tableLoop lines i [] = ([lines ! i], i + 1)" by (intro tableLoop_single_row) auto
    then show ?thesis by (simp add: processTable_def)
  qed
  show b: "processBlockElement lines i = Inr None"
    using assms h others table by (auto simp: processBlockElement_def)
  have "\<not> is_space CHR ''#''" by (simp add: is_space_def)
  then have "trim (lines ! i) \<noteq> []" by (simp add: trim_eq_Nil l)
  from paragraph_of_plain_line [OF assms this b]
  show "\<exists>m. processParagraph lines i =
                       Inr (''<p>'' @
                            processInlineElements
                              (escapeHTMLInText (join '' '' (take (Suc m) (drop i lines)))) @
                            ''</p>'', i + Suc m)" .
qed

theorem C8_header_levels_witness:
  "0 < length [''# H1''] \<and>
   processBlockElement [''# H1''] 0 = Inr (Some (''<h1>H1</h1>'', 1)) \<and>
   parse \<lparr>sanitizeHTML = False\<rparr> id ''# H1'' = Some (Inr ''<h1>H1</h1>'') \<and>
   0 < length [''####### H7''] \<and>
   rmatch re_header True ''####### H7'' = None \<and>
   processBlockElement [''####### H7''] 0 = Inr None \<and>
   parse \<lparr>sanitizeHTML = False\<rparr> id ''####### H7'' = Some (Inr ''<p>####### H7</p>'')"
proof -
  have l1: "0 < length [''# H1'']" and l7: "0 < length [''####### H7'']" by simp_all
  have s: "show_nat (Suc 0) = ''1''" by code_simp
  have i: "processInlineElements ''H1'' = ''H1''" by code_simp
  have "1 \<le> (1::nat) \<and> (1::nat) \<le> 6 \<and> '' '' \<noteq> [] \<and> list_all is_space '' '' \<and>
          ''H1'' \<noteq> [] \<and> \<not> is_space (hd ''H1'') \<and> list_all any_char ''H1'' \<and>
          [''# H1''] ! 0 = replicate 1 CHR ''#'' @ '' '' @ ''H1''"
    by (simp add: is_space_def any_char_def)
  with C8_header_levels [OF l1, of 1 "'' ''" "''H1''"]
  have a: "processBlockElement [''# H1''] 0 = Inr (Some (''<h1>H1</h1>'', 1))"
    by (simp add: s i)
  have p1: "parse \<lparr>sanitizeHTML = False\<rparr> id ''# H1'' = Some (Inr ''<h1>H1</h1>'')" by code_simp
  have "replicate 7 CHR ''#'' @ '' H7'' = ''####### H7''" by (simp add: eval_nat_numeral)
  then have "7 \<le> (7::nat) \<and> [''####### H7''] ! 0 = replicate 7 CHR ''#'' @ '' H7''" by simp
  moreover have "\<not> isTableRow ([''####### H7''] ! 0)" by (simp add: isTableRow_def)
  ultimately have b: "rmatch re_header True ''####### H7'' = None \<and>
      processBlockElement [''####### H7''] 0 = Inr None"
    using C8_header_levels [OF l7, of 7 _ _ "'' H7''"] by simp
  have p7: "parse \<lparr>sanitizeHTML = False\<rparr> id ''####### H7'' = Some (Inr ''<p>####### H7</p>'')"
    by code_simp
  from l1 l7 a p1 b p7 show ?thesis by blast
qed

text \<open>
  The claim as stated renders every line of seven or more \<^verbatim>\<open>#\<close> as paragraph text. The
  table gate comes before the paragraph: here such a line is the header row of a table.
\<close>

theorem C8_seven_hashes_in_table_counterexample:
  "processBlockElement [''#######|x'', ''-|-''] 0 =
     Inr (Some (''<table>'' @ NL @ ''<thead>'' @ NL @ ''<tr>'' @ NL @ ''<th>#######</th>'' @ NL @
                ''<th>x</th>'' @ NL @ ''</tr>'' @ NL @ ''</thead>'' @ NL @ ''<tbody>'' @ NL @
                ''</tbody>'' @ NL @ ''</table>'', 2))"
  by code_simp

section \<open>Global replacement\<close>

lemma rmatch_needs:
  assumes "rmatch re e s = Some x" and "Rep p lo hi \<in> set re" and "0 < lo"
  shows "\<exists>c \<in> set s. p c"
proof -
  obtain gs r where x: "x = (gs, r)" by (cases x)
  from rmatch_sound [OF assms(1) [unfolded x]] rmatch_split [OF assms(1) [unfolded x]]
  have ok: "list_all2 atom_ok re gs" and s: "s = concat gs @ r" by auto
  from assms(2) obtain k where k: "k < length re" "re ! k = Rep p lo hi"
    by (auto simp: in_set_conv_nth)
  with ok have "atom_ok (Rep p lo hi) (gs ! k)" and kg: "k < length gs"
    by (auto simp: list_all2_conv_all_nth)
  with assms(3) obtain c where "c \<in> set (gs ! k)" "p c"
    by (cases "gs ! k") auto
  moreover have "gs ! k \<in> set gs" using kg by simp
  then have "set (gs ! k) \<subseteq> set s" unfolding s by auto
  ultimately show ?thesis by blast
qed

lemma rmatch_needs_None:
  "Rep p lo hi \<in> set re \<Longrightarrow> 0 < lo \<Longrightarrow> list_all (\<lambda>c. \<not> p c) s \<Longrightarrow> rmatch re e s = None"
  using rmatch_needs [of re e s _ p lo hi] by (cases "rmatch re e s") (auto simp: list_all_iff)

lemma replace_all_miss:
  "rmatch re False (c # s) = None \<Longrightarrow> replace_all re f (c # s) = c # replace_all re f s"
  by (subst replace_all.simps) simp

lemma replace_all_end:
  "rmatch re False [] = None \<Longrightarrow> replace_all re f [] = []"
  by (subst replace_all.simps) simp

lemma replace_all_hit:
  "rmatch re False s = Some (gs, r) \<Longrightarrow> concat gs \<noteq> [] \<Longrightarrow>
     replace_all re f s = f gs @ replace_all re f r"
  by (subst replace_all.simps) (simp del: concat_eq_Nil_conv)

lemma replace_all_needs:
  assumes "Rep p lo hi \<in> set re" and "0 < lo" and "list_all (\<lambda>c. \<not> p c) s"
  shows "replace_all re f s = s"
  using assms(3)
proof (induction s)
  case Nil
  show ?case using assms(1,2) by (intro replace_all_end rmatch_needs_None) auto
next
  case (Cons c s)
  have "rmatch re False (c # s) = None"
    using assms(1,2) Cons.prems by (rule rmatch_needs_None)
  with Cons show ?case by (simp add: replace_all_miss)
qed

lemma replace_all_skip:
  assumes "0 < lo" and "list_all (\<lambda>c. \<not> p c) a"
  shows "replace_all (Rep p lo hi # as) f (a @ b) = a @ replace_all (Rep p lo hi # as) f b"
  using assms(2)
proof (induction a)
  case Nil
  show ?case by simp
next
  case (Cons c a)
  have "rmatch (Rep p lo hi # as) False (c # a @ b) = None"
    using assms(1) Cons.prems by (intro rmatch_first_None) auto
  with Cons show ?case by (simp add: replace_all_miss)
qed

lemma replace_all_st_miss:
  "rmatch re False (c # s) = None \<Longrightarrow>
     replace_all_st re f st (c # s) = (case replace_all_st re f st s of (t, st') \<Rightarrow> (c # t, st'))"
  by (subst replace_all_st.simps) simp

lemma replace_all_st_end:
  "rmatch re False [] = None \<Longrightarrow> replace_all_st re f st [] = ([], st)"
  by (subst replace_all_st.simps) simp

lemma replace_all_st_hit:
  "rmatch re False s = Some (gs, r) \<Longrightarrow> concat gs \<noteq> [] \<Longrightarrow>
     replace_all_st re f st s =
       (case f gs st of (out, st') \<Rightarrow>
          case replace_all_st re f st' r of (t, st'') \<Rightarrow> (out @ t, st''))"
  by (subst replace_all_st.simps) (simp del: concat_eq_Nil_conv)

lemma replace_all_st_needs:
  assumes "Rep p lo hi \<in> set re" and "0 < lo" and "list_all (\<lambda>c. \<not> p c) s"
  shows "replace_all_st re f st s = (s, st)"
  using assms(3)
proof (induction s)
  case Nil
  show ?case using assms(1,2) by (intro replace_all_st_end rmatch_needs_None) auto
next
  case (Cons c s)
  have "rmatch re False (c # s) = None"
    using assms(1,2) Cons.prems by (rule rmatch_needs_None)
  with Cons show ?case by (simp add: replace_all_st_miss)
qed

lemma replace_all_st_skip:
  assumes "0 < lo" and "list_all (\<lambda>c. \<not> p c) a"
  shows "replace_all_st (Rep p lo hi # as) f st (a @ b) =
           (case replace_all_st (Rep p lo hi # as) f st b of (t, st') \<Rightarrow> (a @ t, st'))"
  using assms(2)
proof (induction a)
  case Nil
  show ?case by simp
next
  case (Cons c a)
  have "rmatch (Rep p lo hi # as) False (c # a @ b) = None"
    using assms(1) Cons.prems by (intro rmatch_first_None) auto
  with Cons show ?case by (simp add: replace_all_st_miss split: prod.splits)
qed

lemma escapeHTML_keeps_out:
  "c \<notin> set s \<Longrightarrow> c \<notin> set ''&;abglmnpst'' \<Longrightarrow> c \<notin> set (escapeHTML s)"
  by (induction s) (simp_all split: if_splits)


lemma getSubstitution_plain:
  "CHR ''$'' \<notin> set s \<Longrightarrow> getSubstitution m b a s = s"
  by (induction m b a s rule: getSubstitution.induct) auto

lemma find_sub_first:
  assumes "pat \<noteq> []" and "hd pat \<notin> set A"
  shows "find_sub pat (A @ pat @ B) = Some (A, B)"
  using assms(2)
proof (induction A)
  case Nil
  obtain p0 ps where p: "pat = p0 # ps" using assms(1) by (cases pat) auto
  show ?case by (simp add: p)
next
  case (Cons c A)
  obtain p0 ps where p: "pat = p0 # ps" using assms(1) by (cases pat) auto
  with Cons.prems have "c \<noteq> p0" by auto
  then have "take (length pat) (c # A @ pat @ B) \<noteq> pat" by (simp add: p)
  with Cons show ?case by simp
qed

lemma replace_str_first:
  assumes "pat \<noteq> []" and "hd pat \<notin> set A" and "CHR ''$'' \<notin> set repl"
  shows "replace_str pat repl (A @ pat @ B) = A @ repl @ B"
  using find_sub_first [OF assms(1,2)] assms(3) by (simp add: replace_str_def getSubstitution_plain)

section \<open>Code spans in the Inline Engine\<close>

text \<open>
  \<open>free_of cs s\<close>: the string \<open>s\<close> holds none of the characters of \<open>cs\<close>.
  \<open>follows_ok q s\<close>: no \<^verbatim>\<open><\<close> in \<open>s\<close> is followed by a character in \<open>q\<close>.
\<close>

definition free_of :: "string \<Rightarrow> string \<Rightarrow> bool" where
  "free_of cs s = list_all (\<lambda>c. c \<notin> set cs) s"

fun follows_ok :: "(char \<Rightarrow> bool) \<Rightarrow> string \<Rightarrow> bool" where
  "follows_ok q (x # y # s) = ((x = CHR ''<'' \<longrightarrow> \<not> q y) \<and> follows_ok q (y # s))"
| "follows_ok q [x] = True"
| "follows_ok q [] = True"

lemma free_ofD: "free_of cs s \<Longrightarrow> d \<in> set cs \<Longrightarrow> d \<notin> set s"
  by (auto simp: free_of_def list_all_iff)

lemma free_of_not: "free_of cs s \<Longrightarrow> d \<in> set cs \<Longrightarrow> list_all (\<lambda>c. \<not> c = d) s"
  by (auto simp: free_of_def list_all_iff)

lemma notin_list_all: "d \<notin> set s \<Longrightarrow> list_all (\<lambda>c. \<not> c = d) s"
  by (auto simp: list_all_iff)

lemma rmatch_Nil_False: "rmatch [] False s = Some ([], s)"
  by simp

lemma rmatch_Lit:
  assumes "rmatch as e t = Some (gs, r)"
  shows "rmatch (Lit c # as) e (c # t) = Some ([c] # gs, r)"
  using rmatch_capped [of "\<lambda>x. x = c" "[c]" 1 as e t gs r] assms by simp

lemma rmatch_run:
  assumes "list_all p g" and "t = [] \<or> \<not> p (hd t)" and "lo \<le> length g"
    and "rmatch as e t = Some (gs, r)"
  shows "rmatch (Rep p lo None # as) e (g @ t) = Some (g # gs, r)"
  using rmatch_greedy [of p g t lo None as e gs r] assms by simp

lemma rmatch_second:
  assumes "rmatch (Cls p # Cls q # as) e s = Some x"
  shows "\<exists>a b t. s = a # b # t \<and> p a \<and> q b"
proof -
  obtain gs r where x: "x = (gs, r)" by (cases x)
  from rmatch_sound [OF assms [unfolded x]] rmatch_split [OF assms [unfolded x]]
  have ok: "list_all2 atom_ok (Cls p # Cls q # as) gs" and s: "s = concat gs @ r" by auto
  from ok obtain g1 g2 gs' where gs: "gs = g1 # g2 # gs'" and "atom_ok (Cls p) g1" "atom_ok (Cls q) g2"
    by (auto simp: list_all2_Cons1)
  then obtain a b where "g1 = [a]" "p a" "g2 = [b]" "q b"
    by (cases g1; cases g2) auto
  with s gs show ?thesis by simp
qed

lemma rmatch_second_None:
  "length s < 2 \<or> \<not> q (s ! 1) \<Longrightarrow> rmatch (Cls p # Cls q # as) e s = None"
  using rmatch_second [of p q as e s] by (cases "rmatch (Cls p # Cls q # as) e s") auto

lemma follows_ok_unchanged:
  "follows_ok q s \<Longrightarrow> replace_all (Lit CHR ''<'' # Cls q # as) f s = s"
proof (induction q s rule: follows_ok.induct)
  case (1 q x y s)
  have "rmatch (Lit CHR ''<'' # Cls q # as) False (x # y # s) = None"
  proof (cases "x = CHR ''<''")
    case True
    with "1.prems" show ?thesis by (intro rmatch_second_None) simp
  next
    case False
    then show ?thesis by (intro rmatch_first_None) simp_all
  qed
  with 1 show ?case by (simp add: replace_all_miss)
next
  case (2 q x)
  have "rmatch (Lit CHR ''<'' # Cls q # as) False [x] = None"
    by (intro rmatch_second_None) simp
  moreover have "rmatch (Lit CHR ''<'' # Cls q # as) False [] = None"
    by (intro rmatch_second_None) simp
  ultimately show ?case by (simp add: replace_all_miss replace_all_end)
next
  case (3 q)
  have "rmatch (Lit CHR ''<'' # Cls q # as) False [] = None"
    by (intro rmatch_second_None) simp
  then show ?case by (simp add: replace_all_end)
qed

lemma follows_ok_Cons:
  "follows_ok q (x # s) = ((x = CHR ''<'' \<longrightarrow> s = [] \<or> \<not> q (hd s)) \<and> follows_ok q s)"
  by (cases s) auto

lemma follows_ok_free: "CHR ''<'' \<notin> set s \<Longrightarrow> follows_ok q s"
  by (induction q s rule: follows_ok.induct) auto

lemma follows_ok_append_free:
  "CHR ''<'' \<notin> set a \<Longrightarrow> follows_ok q (a @ b) = follows_ok q b"
proof (induction a)
  case Nil
  show ?case by simp
next
  case (Cons x a)
  then show ?case by (auto simp: follows_ok_Cons)
qed

lemma follows_ok_nowhere:
  "follows_ok q (u @ CHR ''<'' # c # v) \<Longrightarrow> \<not> q c"
  by (induction u) (auto simp: follows_ok_Cons)

lemma to_upper_tags:
  "to_upper CHR ''k'' = CHR ''K''" "to_upper CHR ''m'' = CHR ''M''"
  "to_upper CHR ''d'' = CHR ''D''" "to_upper CHR ''s'' = CHR ''S''"
  by code_simp+

lemma processInlineHTML_unchanged:
  assumes "follows_ok (\<lambda>c. c \<in> set ''kKmMdDsS'') s"
  shows "processInlineHTML s = s"
proof -
  have q: "follows_ok (\<lambda>x. x = t \<or> x = to_upper t) s" if "t \<in> set ''kmds''" for t
    using assms that
  proof (induction "\<lambda>c. c \<in> set ''kKmMdDsS''" s rule: follows_ok.induct)
    case (1 x y s)
    then show ?case by (auto simp: to_upper_tags)
  qed simp_all
  have "inline_html_tag (t # ts) s = s" if "t \<in> set ''kmds''" for t ts
    by (simp only: inline_html_tag_def re_inline_html_def CI_def list.map append_Cons append_Nil
        follows_ok_unchanged [OF q [OF that]])
  then show ?thesis
    by (simp add: processInlineHTML_def allowedInlineTags_def)
qed



lemma free_of_mono: "free_of cs s \<Longrightarrow> set ds \<subseteq> set cs \<Longrightarrow> free_of ds s"
  by (auto simp: free_of_def list_all_iff)

lemma free_of_append: "free_of cs (a @ b) = (free_of cs a \<and> free_of cs b)"
  by (simp add: free_of_def)

lemma free_of_escapeHTML:
  assumes "free_of cs s" and "list_all (\<lambda>c. c \<notin> set ''&;abglmnpst'') cs"
  shows "free_of cs (escapeHTML s)"
proof -
  have "d \<notin> set (escapeHTML s)" if "d \<in> set cs" for d
  proof (rule escapeHTML_keeps_out)
    show "d \<notin> set s" using assms(1) that by (rule free_ofD)
    show "d \<notin> set ''&;abglmnpst''" using assms(2) that by (simp add: list_all_iff)
  qed
  then show ?thesis by (auto simp: free_of_def list_all_iff)
qed

lemma processImages_unchanged:
  "CHR ''['' \<notin> set t \<or> CHR ''!'' \<notin> set t \<Longrightarrow> processImages t = t"
proof (elim disjE)
  assume "CHR ''['' \<notin> set t"
  then show ?thesis
    unfolding processImages_def re_image_def
    by (intro replace_all_needs [of "\<lambda>x. x = CHR ''[''" 1 "Some 1"]) (simp_all add: notin_list_all)
next
  assume "CHR ''!'' \<notin> set t"
  then show ?thesis
    unfolding processImages_def re_image_def
    by (intro replace_all_needs [of "\<lambda>x. x = CHR ''!''" 1 "Some 1"]) (simp_all add: notin_list_all)
qed

lemma processLinks_unchanged:
  "CHR ''['' \<notin> set t \<Longrightarrow> processLinks t = t"
  unfolding processLinks_def re_link_def
  by (intro replace_all_needs [of "\<lambda>x. x = CHR ''[''" 1 "Some 1"]) (simp_all add: notin_list_all)

lemma processBoldItalic_unchanged:
  "CHR ''*'' \<notin> set t \<Longrightarrow> CHR ''_'' \<notin> set t \<Longrightarrow> processBoldItalic t = t"
proof -
  assume a: "CHR ''*'' \<notin> set t" "CHR ''_'' \<notin> set t"
  have "replace_all (re_delim2 d) f t = t" "replace_all (re_delim1 d) f t = t"
    if "d \<notin> set t" for d f
    unfolding re_delim2_def re_delim1_def using that
    by (intro replace_all_needs [of "\<lambda>x. x = d" 1 "Some 1"]; simp add: notin_list_all)+
  with a show ?thesis by (simp add: processBoldItalic_def)
qed

lemma processStrikethrough_unchanged:
  "CHR ''~'' \<notin> set t \<Longrightarrow> processStrikethrough t = t"
  unfolding processStrikethrough_def re_delim2_def
  by (intro replace_all_needs [of "\<lambda>x. x = CHR ''~''" 1 "Some 1"]) (simp_all add: notin_list_all)

lemma processInlineCode_unchanged:
  "CHR ''`'' \<notin> set t \<Longrightarrow> processInlineCode t = t"
  unfolding processInlineCode_def re_inline_code_def
  by (intro replace_all_needs [of "\<lambda>x. x = CHR ''`''" 1 "Some 1"]) (simp_all add: notin_list_all)




section \<open>The escaping pass\<close>

lemma placeholder_0: "placeholder 0 = ''__PROTECTED_0__''"
  by code_simp

lemma tag_hit:
  assumes "b \<noteq> []" and "CHR ''>'' \<notin> set b"
  shows "rmatch re_tag False (CHR ''<'' # b @ CHR ''>'' # rest) = Some ([''<'', b, ''>''], rest)"
proof -
  have 3: "rmatch [Lit CHR ''>''] False (CHR ''>'' # rest) = Some ([''>''], rest)"
    by (intro rmatch_Lit) simp
  have 2: "rmatch [Plus (\<lambda>c. c \<noteq> CHR ''>''), Lit CHR ''>''] False (b @ CHR ''>'' # rest)
      = Some ([b, ''>''], rest)"
    using assms 3 by (intro rmatch_run) (auto simp: list_all_iff Suc_le_eq)
  show ?thesis unfolding re_tag_def by (rule rmatch_Lit [OF 2])
qed

lemma link_hit:
  assumes "x \<noteq> []" and "CHR '']'' \<notin> set x" and "y \<noteq> []" and "CHR '')'' \<notin> set y"
  shows "rmatch re_link False (CHR ''['' # x @ CHR '']'' # CHR ''('' # y @ CHR '')'' # rest) =
           Some ([''['', x, '']'', ''('', y, '')''], rest)"
proof -
  have 6: "rmatch [Lit CHR '')''] False (CHR '')'' # rest) = Some (['')''], rest)"
    by (intro rmatch_Lit) simp
  have 5: "rmatch [Plus (\<lambda>c. c \<noteq> CHR '')''), Lit CHR '')''] False (y @ CHR '')'' # rest)
      = Some ([y, '')''], rest)"
    using assms 6 by (intro rmatch_run) (auto simp: list_all_iff Suc_le_eq)
  have 4: "rmatch [Lit CHR ''('', Plus (\<lambda>c. c \<noteq> CHR '')''), Lit CHR '')''] False
      (CHR ''('' # y @ CHR '')'' # rest) = Some ([''('', y, '')''], rest)"
    by (rule rmatch_Lit [OF 5])
  have 3: "rmatch [Lit CHR '']'', Lit CHR ''('', Plus (\<lambda>c. c \<noteq> CHR '')''), Lit CHR '')''] False
      (CHR '']'' # CHR ''('' # y @ CHR '')'' # rest) = Some (['']'', ''('', y, '')''], rest)"
    by (rule rmatch_Lit [OF 4])
  have 2: "rmatch [Plus (\<lambda>c. c \<noteq> CHR '']''), Lit CHR '']'', Lit CHR ''('',
        Plus (\<lambda>c. c \<noteq> CHR '')''), Lit CHR '')''] False
      (x @ CHR '']'' # CHR ''('' # y @ CHR '')'' # rest) = Some ([x, '']'', ''('', y, '')''], rest)"
    using assms 3 by (intro rmatch_run) (auto simp: list_all_iff Suc_le_eq)
  show ?thesis unfolding re_link_def by (rule rmatch_Lit [OF 2])
qed


lemma protect_links_none:
  "CHR ''['' \<notin> set t \<Longrightarrow> replace_all_st re_link protect st t = (t, st)"
  unfolding re_link_def
  by (intro replace_all_st_needs [of "\<lambda>x. x = CHR ''[''" 1 "Some 1"]) (simp_all add: notin_list_all)

lemma protect_images_none:
  "CHR ''['' \<notin> set t \<or> CHR ''!'' \<notin> set t \<Longrightarrow> replace_all_st re_image protect st t = (t, st)"
proof (elim disjE)
  assume "CHR ''['' \<notin> set t"
  then show ?thesis
    unfolding re_image_def
    by (intro replace_all_st_needs [of "\<lambda>x. x = CHR ''[''" 1 "Some 1"]) (simp_all add: notin_list_all)
next
  assume "CHR ''!'' \<notin> set t"
  then show ?thesis
    unfolding re_image_def
    by (intro replace_all_st_needs [of "\<lambda>x. x = CHR ''!''" 1 "Some 1"]) (simp_all add: notin_list_all)
qed

lemma protect_code_none:
  "CHR ''`'' \<notin> set t \<Longrightarrow> replace_all_st re_inline_code protect st t = (t, st)"
  unfolding re_inline_code_def
  by (intro replace_all_st_needs [of "\<lambda>x. x = CHR ''`''" 1 "Some 1"]) (simp_all add: notin_list_all)

lemma escape_one_tag:
  assumes "CHR ''<'' \<notin> set pre" and "b \<noteq> []" and "CHR ''>'' \<notin> set b"
  shows "replace_all re_tag f (pre @ CHR ''<'' # b @ CHR ''>'' # rest) =
           pre @ f [''<'', b, ''>''] @ replace_all re_tag f rest"
proof -
  have "replace_all re_tag f (pre @ CHR ''<'' # b @ CHR ''>'' # rest) =
          pre @ replace_all re_tag f (CHR ''<'' # b @ CHR ''>'' # rest)"
    unfolding re_tag_def using assms(1) by (intro replace_all_skip) (simp_all add: notin_list_all)
  moreover have "replace_all re_tag f (CHR ''<'' # b @ CHR ''>'' # rest) =
          f [''<'', b, ''>''] @ replace_all re_tag f rest"
    using tag_hit [OF assms(2,3)] by (intro replace_all_hit) simp_all
  ultimately show ?thesis by simp
qed

lemma escape_no_tag:
  "CHR ''<'' \<notin> set t \<or> CHR ''>'' \<notin> set t \<Longrightarrow> replace_all re_tag f t = t"
proof (elim disjE)
  assume "CHR ''<'' \<notin> set t"
  then show ?thesis
    unfolding re_tag_def
    by (intro replace_all_needs [of "\<lambda>x. x = CHR ''<''" 1 "Some 1"]) (simp_all add: notin_list_all)
next
  assume "CHR ''>'' \<notin> set t"
  then show ?thesis
    unfolding re_tag_def
    by (intro replace_all_needs [of "\<lambda>x. x = CHR ''>''" 1 "Some 1"]) (simp_all add: notin_list_all)
qed

lemma restore_one:
  assumes "CHR ''_'' \<notin> set a" and "CHR ''$'' \<notin> set element"
  shows "restore [element] (a @ ''__PROTECTED_0__'' @ post) = a @ element @ post"
proof -
  have "replace_str ''__PROTECTED_0__'' element (a @ ''__PROTECTED_0__'' @ post) = a @ element @ post"
    using assms by (intro replace_str_first) simp_all
  then show ?thesis by (simp add: restore_def placeholder_0)
qed




section \<open>Script tags in a paragraph\<close>

lemma protect_link_span:
  assumes "CHR ''['' \<notin> set a" and "CHR ''['' \<notin> set post"
    and "x \<noteq> []" and "CHR '']'' \<notin> set x" and "y \<noteq> []" and "CHR '')'' \<notin> set y"
  shows "replace_all_st re_link protect [] (a @ CHR ''['' # x @ CHR '']'' # CHR ''('' # y @ CHR '')'' # post) =
           (a @ ''__PROTECTED_0__'' @ post, [CHR ''['' # x @ CHR '']'' # CHR ''('' # y @ '')''])"
proof -
  let ?span = "CHR ''['' # x @ CHR '']'' # CHR ''('' # y @ CHR '')'' # post"
  have "replace_all_st re_link protect [] (a @ ?span) =
          (case replace_all_st re_link protect [] ?span of (t, st') \<Rightarrow> (a @ t, st'))"
    unfolding re_link_def using assms(1)
    by (intro replace_all_st_skip) (simp_all add: notin_list_all)
  moreover have "replace_all_st re_link protect [] ?span =
          (case protect [''['', x, '']'', ''('', y, '')''] [] of (out, st') \<Rightarrow>
             case replace_all_st re_link protect st' post of (t, st'') \<Rightarrow> (out @ t, st''))"
    using link_hit [OF assms(3,4,5,6)] by (intro replace_all_st_hit) simp_all
  moreover have "replace_all_st re_link protect st post = (post, st)" for st
    using assms(2) by (rule protect_links_none)
  ultimately show ?thesis by (simp add: protect_def placeholder_0)
qed

lemma processLinks_span:
  assumes "CHR ''['' \<notin> set a" and "CHR ''['' \<notin> set post"
    and "x \<noteq> []" and "CHR '']'' \<notin> set x" and "y \<noteq> []" and "CHR '')'' \<notin> set y"
  shows \<open>processLinks (a @ CHR ''['' # x @ CHR '']'' # CHR ''('' # y @ CHR '')'' # post) =
           a @ ''<a href="'' @ escapeHTML y @ ''">'' @ escapeHTML x @ ''</a>'' @ post\<close>
proof -
  let ?f = \<open>\<lambda>gs. ''<a href="'' @ escapeHTML (gs ! 4) @ ''">'' @ escapeHTML (gs ! 1) @ ''</a>''\<close>
  let ?span = "CHR ''['' # x @ CHR '']'' # CHR ''('' # y @ CHR '')'' # post"
  have "replace_all re_link ?f (a @ ?span) = a @ replace_all re_link ?f ?span"
    unfolding re_link_def using assms(1) by (intro replace_all_skip) (simp_all add: notin_list_all)
  moreover have "replace_all re_link ?f ?span = ?f [''['', x, '']'', ''('', y, '')''] @ replace_all re_link ?f post"
    using link_hit [OF assms(3,4,5,6)] by (intro replace_all_hit) simp_all
  moreover have "replace_all re_link ?f post = post"
    using processLinks_unchanged [OF assms(2)] by (simp add: processLinks_def)
  ultimately show ?thesis by (simp add: processLinks_def)
qed

lemma single_paragraph_line:
  assumes "trim t \<noteq> []" and "processBlockElement [t] 0 = Inr None"
  shows "processParagraph [t] 0 =
           Inr (''<p>'' @ processInlineElements (escapeHTMLInText t) @ ''</p>'', 1)"
proof -
  have "paragraphLoop [t] 1 [t] = Inr ([t], 1)"
    by (subst paragraphLoop.simps) simp
  then have "paragraphLoop [t] 0 [] = Inr ([t], 1)"
    using assms by (subst paragraphLoop.simps) simp
  then show ?thesis by (simp add: processParagraph_def)
qed

text \<open>
  The ordinary case of the escaping pass and the Inline Engine together: a paragraph whose
  plain text holds \<^verbatim>\<open><script>...</script>\<close> and a link \<^verbatim>\<open>[x](y)\<close> whose text and
  address are plain too. Plain text here is text with no backtick, \<^verbatim>\<open>[\<close>, \<^verbatim>\<open><\<close>,
  \<^verbatim>\<open>*\<close>, \<^verbatim>\<open>_\<close>, \<^verbatim>\<open>~\<close> or \<^verbatim>\<open>!\<close>; the link has no \<^verbatim>\<open>$\<close> either. The
  escaping pass escapes the two tags and gives the link back as it was; the Inline Engine
  then turns the link into an anchor; the paragraph holds \<^verbatim>\<open>&lt;script&gt;\<close> and
  \<^verbatim>\<open>&lt;/script&gt;\<close> and nowhere the text \<^verbatim>\<open><script>\<close>.
\<close>

lemma script_escaped_plain_link_kept:
  assumes "free_of ''`[<*_~!'' pre" and "free_of ''`[<*_~!'' body"
    and "free_of ''`[<*_~!'' mid" and "free_of ''`[<*_~!'' post"
    and "x \<noteq> []" and "free_of ''`[]*_~!$'' x" and "y \<noteq> []" and "free_of ''`[)*_~!$'' y"
    and "processBlockElement
           [pre @ ''<script>'' @ body @ ''</script>'' @ mid @ ''['' @ x @ '']('' @ y @ '')'' @ post] 0
         = Inr None"
  shows \<open>escapeHTMLInText
           (pre @ ''<script>'' @ body @ ''</script>'' @ mid @ ''['' @ x @ '']('' @ y @ '')'' @ post) =
           pre @ ''&lt;script&gt;'' @ body @ ''&lt;/script&gt;'' @ mid @
           ''['' @ x @ '']('' @ y @ '')'' @ post \<and>
         processParagraph
           [pre @ ''<script>'' @ body @ ''</script>'' @ mid @ ''['' @ x @ '']('' @ y @ '')'' @ post] 0 =
           Inr (''<p>'' @ pre @ ''&lt;script&gt;'' @ body @ ''&lt;/script&gt;'' @ mid @
                ''<a href="'' @ escapeHTML y @ ''">'' @ escapeHTML x @ ''</a>'' @ post @ ''</p>'', 1) \<and>
         (\<forall>u v. ''<p>'' @ pre @ ''&lt;script&gt;'' @ body @ ''&lt;/script&gt;'' @ mid @
                ''<a href="'' @ escapeHTML y @ ''">'' @ escapeHTML x @ ''</a>'' @ post @ ''</p>''
                \<noteq> u @ ''<script>'' @ v)\<close>
proof -
  let ?span = "CHR ''['' # x @ CHR '']'' # CHR ''('' # y @ '')''"
  let ?a = "pre @ ''<script>'' @ body @ ''</script>'' @ mid"
  let ?e = "pre @ ''&lt;script&gt;'' @ body @ ''&lt;/script&gt;'' @ mid"
  let ?T = "?a @ ?span @ post"
  let ?link = \<open>''<a href="'' @ escapeHTML y @ ''">'' @ escapeHTML x @ ''</a>''\<close>
  note p = free_ofD [OF assms(1)] and b = free_ofD [OF assms(2)] and m = free_ofD [OF assms(3)]
    and q = free_ofD [OF assms(4)] and x = free_ofD [OF assms(6)] and y = free_ofD [OF assms(8)]
  \<comment> \<open>the escaping pass\<close>
  have tick: "CHR ''`'' \<notin> set ?T"
    using p [of "CHR ''`''"] b [of "CHR ''`''"] m [of "CHR ''`''"] q [of "CHR ''`''"]
      x [of "CHR ''`''"] y [of "CHR ''`''"] by simp
  have s1: "replace_all_st re_inline_code protect [] ?T = (?T, [])"
    using tick by (rule protect_code_none)
  have bra: "CHR ''['' \<notin> set ?a" "CHR ''['' \<notin> set post" "CHR ''['' \<notin> set ?e"
    using p [of "CHR ''[''"] b [of "CHR ''[''"] m [of "CHR ''[''"] q [of "CHR ''[''"] by simp_all
  have xy: "CHR '']'' \<notin> set x" "CHR '')'' \<notin> set y"
    using x [of "CHR '']''"] y [of "CHR '')''"] by simp_all
  have s2: "replace_all_st re_link protect [] ?T = (?a @ ''__PROTECTED_0__'' @ post, [?span])"
    using protect_link_span [OF bra(1,2) assms(5) xy(1) assms(7) xy(2)] by simp
  have s3: "replace_all_st re_image protect st (?a @ ''__PROTECTED_0__'' @ post) =
              (?a @ ''__PROTECTED_0__'' @ post, st)" for st
    using bra by (intro protect_images_none disjI1) simp
  have lt: "CHR ''<'' \<notin> set pre" "CHR ''<'' \<notin> set body" "CHR ''<'' \<notin> set mid" "CHR ''<'' \<notin> set post"
    using p [of "CHR ''<''"] b [of "CHR ''<''"] m [of "CHR ''<''"] q [of "CHR ''<''"] by simp_all
  have tail: "replace_all re_tag f (mid @ ''__PROTECTED_0__'' @ post) = mid @ ''__PROTECTED_0__'' @ post" for f
    using lt by (intro escape_no_tag disjI1) simp
  have s4: "replace_all re_tag (\<lambda>gs. escapeHTML (concat gs)) (?a @ ''__PROTECTED_0__'' @ post) =
              ?e @ ''__PROTECTED_0__'' @ post"
    using escape_one_tag [of pre "''script''" "\<lambda>gs. escapeHTML (concat gs)"
        "body @ ''</script>'' @ mid @ ''__PROTECTED_0__'' @ post"]
      escape_one_tag [of body "''/script''" "\<lambda>gs. escapeHTML (concat gs)"
        "mid @ ''__PROTECTED_0__'' @ post"]
      tail lt
    by simp
  have us: "CHR ''_'' \<notin> set ?e"
    using p [of "CHR ''_''"] b [of "CHR ''_''"] m [of "CHR ''_''"] by simp
  have "CHR ''$'' \<notin> set ?span" using x [of "CHR ''$''"] y [of "CHR ''$''"] by simp
  with us have s5: "restore [?span] (?e @ ''__PROTECTED_0__'' @ post) = ?e @ ?span @ post"
    by (rule restore_one)
  have esc: "escapeHTMLInText ?T = ?e @ ?span @ post"
    unfolding escapeHTMLInText_def by (simp only: s1 s2 s3 s4 s5 prod.case)
  \<comment> \<open>the Inline Engine\<close>
  have tick': "CHR ''`'' \<notin> set (?e @ ?span @ post)"
    using p [of "CHR ''`''"] b [of "CHR ''`''"] m [of "CHR ''`''"] q [of "CHR ''`''"]
      x [of "CHR ''`''"] y [of "CHR ''`''"] by simp
  have i1: "processInlineCode (?e @ ?span @ post) = ?e @ ?span @ post"
    using tick' by (rule processInlineCode_unchanged)
  have bang: "CHR ''!'' \<notin> set (?e @ ?span @ post)"
    using p [of "CHR ''!''"] b [of "CHR ''!''"] m [of "CHR ''!''"] q [of "CHR ''!''"]
      x [of "CHR ''!''"] y [of "CHR ''!''"] by simp
  have i2: "processImages (?e @ ?span @ post) = ?e @ ?span @ post"
    using bang by (intro processImages_unchanged disjI2)
  have i3: "processLinks (?e @ ?span @ post) = ?e @ ?link @ post"
    using processLinks_span [OF bra(3,2) assms(5) xy(1) assms(7) xy(2)] by simp
  have ex: "free_of ''*_~'' (escapeHTML x)" "free_of ''*_~'' (escapeHTML y)"
    using assms(6,8) by (auto intro!: free_of_escapeHTML elim: free_of_mono)
  have plainparts: "free_of ''*_~'' pre" "free_of ''*_~'' body" "free_of ''*_~'' mid" "free_of ''*_~'' post"
    using assms(1-4) by (auto elim: free_of_mono)
  with ex have T: "free_of ''*_~'' (?e @ ?link @ post)"
    by (simp add: free_of_append) (simp add: free_of_def)
  have out: "CHR ''*'' \<notin> set (?e @ ?link @ post)" "CHR ''_'' \<notin> set (?e @ ?link @ post)"
      "CHR ''~'' \<notin> set (?e @ ?link @ post)"
    by (rule free_ofD [OF T], simp)+
  have i4: "processBoldItalic (?e @ ?link @ post) = ?e @ ?link @ post"
    using out by (intro processBoldItalic_unchanged)
  have i5: "processStrikethrough (?e @ ?link @ post) = ?e @ ?link @ post"
    using out by (intro processStrikethrough_unchanged)
  have ltx: "CHR ''<'' \<notin> set (escapeHTML x)" "CHR ''<'' \<notin> set (escapeHTML y)"
    using escapeHTML_no_angle by simp_all
  have fo: "follows_ok q (''<p>'' @ ?e @ ?link @ post @ ''</p>'')"
    if "\<not> q CHR ''p''" "\<not> q CHR ''a''" "\<not> q CHR ''/''" for q
    using lt ltx that by (simp add: follows_ok_append_free follows_ok_Cons follows_ok_free)
  have fo': "follows_ok q (?e @ ?link @ post)"
    if "\<not> q CHR ''p''" "\<not> q CHR ''a''" "\<not> q CHR ''/''" for q
    using lt ltx that by (simp add: follows_ok_append_free follows_ok_Cons follows_ok_free)
  have i6: "processInlineHTML (?e @ ?link @ post) = ?e @ ?link @ post"
    by (intro processInlineHTML_unchanged fo') simp_all
  have ne: "?e @ ?span @ post \<noteq> []" by simp
  have inl: "processInlineElements (?e @ ?span @ post) = ?e @ ?link @ post"
    unfolding processInlineElements_def using ne by (simp only: i1 i2 i3 i4 i5 i6 if_False)
  \<comment> \<open>the paragraph\<close>
  have "\<not> is_space CHR ''<''" by (simp add: is_space_def)
  then have "\<not> list_all is_space ?T" by simp
  then have nb: "trim ?T \<noteq> []" by (simp add: trim_eq_Nil)
  have blk: "processBlockElement [?T] 0 = Inr None" using assms(9) by simp
  have par: "processParagraph [?T] 0 = Inr (''<p>'' @ (?e @ ?link @ post) @ ''</p>'', 1)"
    using single_paragraph_line [OF nb blk] by (simp only: esc inl)
  have no: "''<p>'' @ ?e @ ?link @ post @ ''</p>'' \<noteq> u @ ''<script>'' @ v" for u v
  proof
    assume "''<p>'' @ ?e @ ?link @ post @ ''</p>'' = u @ ''<script>'' @ v"
    then have "follows_ok (\<lambda>c. c = CHR ''s'') (u @ CHR ''<'' # CHR ''s'' # ''cript>'' @ v)"
      using fo [of "\<lambda>c. c = CHR ''s''"] by simp
    from follows_ok_nowhere [OF this] show False by simp
  qed
  from esc par no show ?thesis by simp
qed

lemma script_escaped_plain_link_kept_example:
  \<open>free_of ''`[<*_~!'' ''This has '' \<and> free_of ''`[<*_~!'' ''alert(1)'' \<and>
   free_of ''`[<*_~!'' '' text. '' \<and> free_of ''`[<*_~!'' ''.'' \<and>
   ''x'' \<noteq> [] \<and> free_of ''`[]*_~!$'' ''x'' \<and> ''y'' \<noteq> [] \<and> free_of ''`[)*_~!$'' ''y'' \<and>
   processBlockElement [''This has <script>alert(1)</script> text. [x](y).''] 0 = Inr None \<and>
   escapeHTMLInText ''This has <script>alert(1)</script> text. [x](y).'' =
     ''This has &lt;script&gt;alert(1)&lt;/script&gt; text. [x](y).'' \<and>
   processParagraph [''This has <script>alert(1)</script> text. [x](y).''] 0 =
     Inr (''<p>This has &lt;script&gt;alert(1)&lt;/script&gt; text. <a href="y">x</a>.</p>'', 1) \<and>
   parse \<lparr>sanitizeHTML = False\<rparr> id ''This has <script>alert(1)</script> text.'' =
     Some (Inr ''<p>This has &lt;script&gt;alert(1)&lt;/script&gt; text.</p>'')\<close>
proof -
  have h: "free_of ''`[<*_~!'' ''This has ''" "free_of ''`[<*_~!'' ''alert(1)''"
    "free_of ''`[<*_~!'' '' text. ''" "free_of ''`[<*_~!'' ''.''"
    "''x'' \<noteq> []" "free_of ''`[]*_~!$'' ''x''" "''y'' \<noteq> []" "free_of ''`[)*_~!$'' ''y''"
    by (simp_all add: free_of_def)
  have b: "processBlockElement [''This has <script>alert(1)</script> text. [x](y).''] 0 = Inr None"
    by code_simp
  have b': "processBlockElement
           [''This has '' @ ''<script>'' @ ''alert(1)'' @ ''</script>'' @ '' text. '' @ ''['' @ ''x'' @
            '']('' @ ''y'' @ '')'' @ ''.''] 0 = Inr None"
    using b by simp
  have p: "parse \<lparr>sanitizeHTML = False\<rparr> id ''This has <script>alert(1)</script> text.'' =
     Some (Inr ''<p>This has &lt;script&gt;alert(1)&lt;/script&gt; text.</p>'')"
    by code_simp
  from script_escaped_plain_link_kept [OF h b'] h b p show ?thesis by simp
qed

text \<open>
  Claim C4 says that in every paragraph whose plain text holds \<^verbatim>\<open><script>...</script>\<close>
  the tags come out escaped while a link of the same paragraph is not mangled by the escaping
  pass: it is protected, restored and then converted. The pass protects code spans before
  links and restores the placeholders in the order it made them. A link whose text is a code
  span is stored with the code span's placeholder inside it; when the code span is to be
  restored its placeholder is not in the text, and when the link is restored the placeholder
  comes back with it and stays. The script tags are escaped, the link is not the link that was
  written: its text is what the emphasis stage makes of \<^verbatim>\<open>__PROTECTED_0__\<close>.
\<close>

theorem C4_link_with_code_span_mangled:
  \<open>escapeHTMLInText ''See <script>x</script> and [`c`](u)'' =
     ''See &lt;script&gt;x&lt;/script&gt; and [__PROTECTED_0__](u)'' \<and>
   processParagraph [''See <script>x</script> and [`c`](u)''] 0 =
     Inr (''<p>See &lt;script&gt;x&lt;/script&gt; and <a href="u">_<em>PROTECTED</em>0__</a></p>'', 1)\<close>
proof
  show \<open>escapeHTMLInText ''See <script>x</script> and [`c`](u)'' =
     ''See &lt;script&gt;x&lt;/script&gt; and [__PROTECTED_0__](u)''\<close>
    by code_simp
  show \<open>processParagraph [''See <script>x</script> and [`c`](u)''] 0 =
     Inr (''<p>See &lt;script&gt;x&lt;/script&gt; and <a href="u">_<em>PROTECTED</em>0__</a></p>'', 1)\<close>
    by code_simp
qed

section \<open>Progress on every other line\<close>

lemma fenceLoop_index: "fenceLoop lines i acc = (code, j) \<Longrightarrow> i \<le> j"
proof (induction lines i acc rule: fenceLoop.induct)
  case (1 lines i codeLines)
  show ?case
  proof (cases "i < length lines \<and> \<not> test re_fence_close True (lines ! i)")
    case True
    with "1.prems" have "fenceLoop lines (i + 1) (codeLines @ [lines ! i]) = (code, j)"
      by (subst (asm) fenceLoop.simps) simp
    with "1.IH" True show ?thesis by fastforce
  next
    case False
    with "1.prems" show ?thesis by (subst (asm) fenceLoop.simps) auto
  qed
qed

lemma tableLoop_index:
  "tableLoop lines i acc = (rows, j) \<Longrightarrow> j + length acc = i + length rows"
proof (induction lines i acc rule: tableLoop.induct)
  case (1 lines i tableLines)
  show ?case
  proof (cases "i < length lines \<and> isTableRow (lines ! i)")
    case True
    with "1.prems" have "tableLoop lines (i + 1) (tableLines @ [lines ! i]) = (rows, j)"
      by (subst (asm) tableLoop.simps) simp
    with "1.IH" True show ?thesis by fastforce
  next
    case False
    with "1.prems" show ?thesis by (subst (asm) tableLoop.simps) auto
  qed
qed

lemma processList_advances:
  assumes "i < length lines" and "listItemOf (lines ! i) \<noteq> None"
  shows "i < snd (processList lines i)"
proof -
  from assms(2) obtain item tag where it: "listItemOf (lines ! i) = Some (item, tag)" by auto
  from listLoop_run [of lines "i + 1" "[item]" "Some tag"] obtain more lt' where
    "listLoop lines (i + 1) [item] (Some tag) = ([item] @ more, lt', i + 1 + length more)"
    by blast
  then have "listLoop lines i [] None = ([item] @ more, lt', i + 1 + length more)"
    using assms(1) it by (subst listLoop.simps) simp
  then show ?thesis by (simp add: processList_def)
qed

lemma processBlockquote_advances:
  assumes "i < length lines" and "test re_quote False (lines ! i)"
  shows "i < snd (processBlockquote lines i)"
proof -
  from quoteLoop_run [of lines "i + 1" "[stripQuoteMarker (lines ! i)]"] obtain n where
    "quoteLoop lines (i + 1) [stripQuoteMarker (lines ! i)] =
       ([stripQuoteMarker (lines ! i)] @ map stripQuoteMarker (take n (drop (i + 1) lines)), i + 1 + n)"
    by blast
  then have "quoteLoop lines i [] =
       ([stripQuoteMarker (lines ! i)] @ map stripQuoteMarker (take n (drop (i + 1) lines)), i + 1 + n)"
    using assms by (subst quoteLoop.simps) simp
  then show ?thesis by (simp add: processBlockquote_def)
qed

text \<open>
  A bare marker is a line that the gate of the List processor lets through and that is no
  list item. It is the only line on which a processor returns the index it was given: on every
  other line each processor returns a greater index, and a document without such a line is
  processed to the end.
\<close>

definition bare_marker :: "string \<Rightarrow> bool" where
  "bare_marker line =
     ((test re_list_gate_ul False line \<or> test re_list_gate_ol False line) \<and> listItemOf line = None)"

lemma processBlockElement_advances:
  assumes "i < length lines" and "\<not> bare_marker (lines ! i)"
    and "processBlockElement lines i = Inr (Some (html, j))"
  shows "i < j"
proof (cases "rmatch re_header True (lines ! i)")
  case (Some a)
  with assms(1,3) show ?thesis by (auto simp: processBlockElement_def split: prod.splits)
next
  case None
  show ?thesis
  proof (cases "test re_fence_open False (lines ! i)")
    case True
    obtain code k where f: "fenceLoop lines (i + 1) [] = (code, k)"
      by (cases "fenceLoop lines (i + 1) []") auto
    from fenceLoop_index [OF f] have "i + 1 \<le> k" .
    with assms(1,3) None True f show ?thesis
      by (auto simp: processBlockElement_def processFencedCodeBlock_def)
  next
    case nofence: False
    show ?thesis
    proof (cases "isTableRow (lines ! i) \<and> i + 1 < length lines \<and> isTableSeparator (lines ! (i + 1))")
      case True
      obtain rows k where t: "tableLoop lines i [] = (rows, k)"
        by (cases "tableLoop lines i []") auto
      from tableLoop_index [OF t] have "k = i + length rows" by simp
      with assms(1,3) None nofence True t show ?thesis
        by (auto simp: processBlockElement_def processTable_def split: if_splits)
    next
      case notable: False
      show ?thesis
      proof (cases "test re_list_gate_ul False (lines ! i) \<or> test re_list_gate_ol False (lines ! i)")
        case True
        with assms(2) have "listItemOf (lines ! i) \<noteq> None" by (simp add: bare_marker_def)
        from processList_advances [OF assms(1) this] assms(1,3) None nofence notable True
        show ?thesis by (auto simp: processBlockElement_def)
      next
        case nolist: False
        show ?thesis
        proof (cases "test re_quote False (lines ! i)")
          case True
          from processBlockquote_advances [OF assms(1) True] assms(1,3) None nofence notable nolist True
          show ?thesis by (auto simp: processBlockElement_def)
        next
          case False
          with assms(1,3) None nofence notable nolist show ?thesis
            by (auto simp: processBlockElement_def split: if_splits)
        qed
      qed
    qed
  qed
qed

lemma processParagraph_advances:
  "\<exists>html j. processParagraph lines i = Inr (html, j) \<and> i < j"
proof -
  from paragraphLoop_run [of lines i "[]"] obtain n where
    n: "paragraphLoop lines i [] = Inr ([] @ take n (drop i lines), i + n)" ..
  show ?thesis
  proof (cases "take n (drop i lines) = []")
    case True
    with n show ?thesis by (simp add: processParagraph_def)
  next
    case False
    then have "0 < n" by (cases n) auto
    with n False show ?thesis by (simp add: processParagraph_def)
  qed
qed

lemma dispatchLoop_returns:
  assumes "list_all (\<lambda>line. \<not> bare_marker line) lines"
  shows "\<exists>html. dispatchLoop lines i result = Some (Inr html)"
proof (induction "length lines - i" arbitrary: i result rule: less_induct)
  case less
  show ?case
  proof (cases "i < length lines")
    case False
    then show ?thesis by (subst dispatchLoop.simps) simp
  next
    case True
    have step: "i < j \<Longrightarrow> \<exists>html. dispatchLoop lines j r = Some (Inr html)" for j r
      using True by (intro less) auto
    from assms True have nb: "\<not> bare_marker (lines ! i)" by (simp add: list_all_length)
    show ?thesis
    proof (cases "trim (lines ! i) = [] \<and> result = []")
      case blank: True
      from step [of "i + 1" result] obtain html where "dispatchLoop lines (i + 1) result = Some (Inr html)"
        by auto
      with True blank show ?thesis by (subst dispatchLoop.simps) simp
    next
      case noblank: False
      from processBlockElement_no_error [OF True] obtain r where r: "processBlockElement lines i = Inr r" ..
      show ?thesis
      proof (cases r)
        case None
        from processParagraph_advances [of lines i] obtain html j where
          p: "processParagraph lines i = Inr (html, j)" "i < j" by blast
        from step [OF p(2), of "result @ [html]"] obtain out where
          "dispatchLoop lines j (result @ [html]) = Some (Inr out)" ..
        with True noblank r None p(1) show ?thesis by (subst dispatchLoop.simps) auto
      next
        case (Some b)
        obtain html j where b: "b = (html, j)" by (cases b)
        from processBlockElement_advances [OF True nb r [unfolded Some b]] have "i < j" .
        from step [OF this, of "result @ [html]"] obtain out where
          "dispatchLoop lines j (result @ [html]) = Some (Inr out)" ..
        with True noblank r Some b show ?thesis by (subst dispatchLoop.simps) auto
      qed
    qed
  qed
qed

lemma parse_returns:
  assumes "list_all (\<lambda>line. \<not> bare_marker line)
             (split_on CHR 0x0A (normalizeLineEndings markdown))"
  shows "\<exists>html. parse opts sanitizer markdown = Some (Inr html)"
proof -
  from dispatchLoop_returns [OF assms, of 0 "[]"] obtain html where
    "processLines (split_on CHR 0x0A (normalizeLineEndings markdown)) = Some (Inr html)"
    by (auto simp: processLines_def)
  then show ?thesis by (simp add: parse_def)
qed

end
